theory Spec2Isabelle
  imports Complex_Main "HOL-Library.Multiset" "HOL-Library.List_Lexorder" "HOL-Library.Char_ord"
    "HOL-Library.Product_Lexorder"
begin

section \<open>JavaScript numbers used by the forecast\<close>

text \<open>
  The forecast works on JavaScript numbers. Counts, years, months and days are integers
  here; averages, shares and steps are exact reals (rounding error of IEEE doubles is
  not modelled). \<open>Math.round\<close> rounds to the nearest integer, a tie going up.
\<close>

definition js_round :: "real \<Rightarrow> int" where
  "js_round x = \<lfloor>x + 1 / 2\<rfloor>"

section \<open>src/logic/forecast.ts: yearly target\<close>

record YearlyCount =
  year :: int
  count :: int

text \<open>\<open>yearlyCounts.find(y => y.year === baseYear)?.count ?? 0\<close>\<close>

definition lastYearCountOf :: "YearlyCount list \<Rightarrow> int \<Rightarrow> int" where
  "lastYearCountOf yearlyCounts baseYear =
     (case find (\<lambda>y. year y = baseYear) yearlyCounts of
        None \<Rightarrow> 0
      | Some s \<Rightarrow> count s)"

text \<open>\<open>yearlyCounts.reduce((sum, s) => sum + s.count, 0) / yearlyCounts.length\<close>\<close>

definition averageCount :: "YearlyCount list \<Rightarrow> real" where
  "averageCount yearlyCounts =
     of_int (sum_list (map count yearlyCounts)) / of_nat (length yearlyCounts)"

definition decideTargetYearCount :: "YearlyCount list \<Rightarrow> int \<Rightarrow> int" where
  "decideTargetYearCount yearlyCounts baseYear =
     (if yearlyCounts = [] then 0
      else
        let lastYearCount = lastYearCountOf yearlyCounts baseYear in
        if lastYearCount \<le> 0 then js_round (averageCount yearlyCounts)
        else
          let avgPast = averageCount yearlyCounts;
              target0 = js_round avgPast;
              minAllowed = \<lfloor>of_int lastYearCount * (85 / 100 :: real)\<rfloor>;
              maxAllowed = \<lceil>of_int lastYearCount * (13 / 10 :: real)\<rceil>;
              target1 = (if target0 < minAllowed then minAllowed else target0);
              target2 = (if target1 > maxAllowed then maxAllowed else target1);
              target3 = (if target2 \<le> 0 then lastYearCount else target2)
          in target3)"

section \<open>src/logic/forecast.ts: monthly targets\<close>

text \<open>
  An array of JavaScript numbers: an entry is an integer, or \<open>None\<close> where JavaScript has
  \<open>NaN\<close> or nothing (\<open>undefined\<close>). Reading past the end gives \<open>undefined\<close>; writing past
  the end extends the array.
\<close>

definition arrGet :: "int option list \<Rightarrow> nat \<Rightarrow> int option" where
  "arrGet xs i = (if i < length xs then xs ! i else None)"

definition arrSet :: "int option list \<Rightarrow> nat \<Rightarrow> int option \<Rightarrow> int option list" where
  "arrSet xs i v =
     (if i < length xs then xs[i := v] else xs @ replicate (i - length xs) None @ [v])"

function redistribute :: "int option list \<Rightarrow> int \<Rightarrow> nat \<Rightarrow> int option list" where
  "redistribute monthly diff idx =
     (if diff \<noteq> 0 \<and> idx < 12 * 3 then
        let i = idx mod 12 in
        if diff > 0 then
          redistribute (arrSet monthly i (map_option (\<lambda>v. v + 1) (arrGet monthly i)))
            (diff - 1) (idx + 1)
        else if diff < 0 \<and> (case arrGet monthly i of Some v \<Rightarrow> v > 0 | None \<Rightarrow> False) then
          redistribute (arrSet monthly i (map_option (\<lambda>v. v - 1) (arrGet monthly i)))
            (diff + 1) (idx + 1)
        else redistribute monthly diff (idx + 1)
      else monthly)"
  by pat_completeness auto
termination
  by (relation "measure (\<lambda>(monthly, diff, idx). 36 - idx)") auto

declare redistribute.simps [simp del]

definition makeMonthlyTargets :: "int \<Rightarrow> real list \<Rightarrow> int option list" where
  "makeMonthlyTargets targetYearCount shares =
     (if targetYearCount \<le> 0 then replicate 12 (Some 0)
      else
        let raw = map (\<lambda>s. s * of_int targetYearCount) shares;
            monthly = map js_round raw;
            diff = targetYearCount - sum_list monthly
        in redistribute (map Some monthly) diff 0)"

section \<open>JavaScript strings\<close>

text \<open>
  Strings are lists of characters, compared as JavaScript compares strings with \<open><\<close>,
  \<open><=\<close> and the default \<open>sort()\<close>: lexicographically by character code (the dates and
  ids handled here are ASCII).
\<close>

definition digitChar :: "nat \<Rightarrow> char" where
  "digitChar n = ''0123456789'' ! (n mod 10)"

fun natString :: "nat \<Rightarrow> string" where
  "natString n =
     (if n < 10 then [digitChar n] else natString (n div 10) @ [digitChar (n mod 10)])"

declare natString.simps [simp del]

text \<open>\<open>String(k)\<close> for an integer \<open>k\<close>.\<close>

definition jsString :: "int \<Rightarrow> string" where
  "jsString k = (if k < 0 then CHR ''-'' # natString (nat (- k)) else natString (nat k))"

text \<open>\<open>s.padStart(n, '0')\<close>\<close>

definition padStart :: "nat \<Rightarrow> string \<Rightarrow> string" where
  "padStart n s = replicate (n - length s) CHR ''0'' @ s"

definition isDigit :: "char \<Rightarrow> bool" where
  "isDigit c = (CHR ''0'' \<le> c \<and> c \<le> CHR ''9'')"

definition digitVal :: "char \<Rightarrow> nat" where
  "digitVal c = of_char c - 48"

text \<open>\<open>Number(s)\<close> for a string of decimal digits.\<close>

definition digitsValue :: "string \<Rightarrow> nat" where
  "digitsValue s = foldl (\<lambda>a c. 10 * a + digitVal c) 0 s"

text \<open>The regular expression \<open>/^\d{4}-\d{2}-\d{2}$/\<close>.\<close>

fun ISO_YMD :: "string \<Rightarrow> bool" where
  "ISO_YMD [y1, y2, y3, y4, s1, m1, m2, s2, d1, d2] =
     (isDigit y1 \<and> isDigit y2 \<and> isDigit y3 \<and> isDigit y4 \<and> s1 = CHR ''-''
      \<and> isDigit m1 \<and> isDigit m2 \<and> s2 = CHR ''-'' \<and> isDigit d1 \<and> isDigit d2)"
| "ISO_YMD _ = False"

section \<open>Calendar dates and JavaScript \<open>Date\<close>\<close>

text \<open>
  A calendar date is a triple (year, month 1..12, day) of the proleptic Gregorian
  calendar, ordered lexicographically. The runtime's local time is taken to be Japan's:
  standard time (+09:00), or summer time one hour ahead of it. A \<open>Date\<close> object of the
  modelled code is then at most an hour away from a midnight of standard time, and it is
  represented by the calendar date its instant has in standard time, or \<open>None\<close> for an
  Invalid Date; the local getters, \<open>new Date(y, m, d)\<close> and the comparison of two such
  \<open>Date\<close>s agree with that date. JavaScript represents instants at most \<open>10^8\<close> days
  from 1970-01-01 UTC; a date outside \<open>minDate .. maxDate\<close> is an Invalid Date.
\<close>

type_synonym date = "int \<times> int \<times> int"

definition isLeapYear :: "int \<Rightarrow> bool" where
  "isLeapYear y = (y mod 4 = 0 \<and> (y mod 100 \<noteq> 0 \<or> y mod 400 = 0))"

definition monthLength :: "int \<Rightarrow> int \<Rightarrow> int" where
  "monthLength y m =
     (if m = 2 then (if isLeapYear y then 29 else 28)
      else if m = 4 \<or> m = 6 \<or> m = 9 \<or> m = 11 then 30
      else 31)"

definition validDate :: "date \<Rightarrow> bool" where
  "validDate dt = (case dt of (y, m, d) \<Rightarrow> 1 \<le> m \<and> m \<le> 12 \<and> 1 \<le> d \<and> d \<le> monthLength y m)"

definition nextDay :: "date \<Rightarrow> date" where
  "nextDay dt = (case dt of (y, m, d) \<Rightarrow>
     if d < monthLength y m then (y, m, d + 1)
     else if m < 12 then (y, m + 1, 1)
     else (y + 1, 1, 1))"

definition prevDay :: "date \<Rightarrow> date" where
  "prevDay dt = (case dt of (y, m, d) \<Rightarrow>
     if 1 < d then (y, m, d - 1)
     else if 1 < m then (y, m - 1, monthLength y (m - 1))
     else (y - 1, 12, 31))"

text \<open>The date \<open>n\<close> days after (before, for negative \<open>n\<close>) a date.\<close>

definition plusDays :: "date \<Rightarrow> int \<Rightarrow> date" where
  "plusDays dt n = (if 0 \<le> n then (nextDay ^^ nat n) dt else (prevDay ^^ nat (- n)) dt)"

definition minDate :: date where
  "minDate = (- 271821, 4, 21)"

definition maxDate :: date where
  "maxDate = (275760, 9, 13)"

text \<open>\<open>TimeClip\<close>: a date out of range becomes an Invalid Date.\<close>

definition timeClip :: "date \<Rightarrow> date option" where
  "timeClip dt = (if minDate \<le> dt \<and> dt \<le> maxDate then Some dt else None)"

text \<open>
  \<open>new Date(year, monthIndex, day)\<close> for integers: a year from 0 to 99 means 1900 + year,
  the month index (0-based) carries into the year, and the day counts from the first of
  that month (day 0 is the last day of the month before).
\<close>

definition jsMakeDate :: "int \<Rightarrow> int \<Rightarrow> int \<Rightarrow> date option" where
  "jsMakeDate yr monthIndex day =
     (let y = (if 0 \<le> yr \<and> yr \<le> 99 then 1900 + yr else yr)
      in timeClip (plusDays (y + monthIndex div 12, monthIndex mod 12 + 1, 1) (day - 1)))"

text \<open>\<open>new Date(year, month, 0).getDate()\<close>; \<open>None\<close> is \<open>NaN\<close>.\<close>

definition daysInMonth :: "int \<Rightarrow> int \<Rightarrow> int option" where
  "daysInMonth yr month = map_option (\<lambda>dt. snd (snd dt)) (jsMakeDate yr month 0)"

section \<open>src/logic/forecast.ts: dates of one month\<close>

text \<open>
  \<open>Math.min(Math.max(Math.round(i * step + step / 2), 1), daysInMonth)\<close> with
  \<open>step = daysInMonth / count\<close>.
\<close>

definition spacedDay :: "int \<Rightarrow> int \<Rightarrow> nat \<Rightarrow> int" where
  "spacedDay days cnt i =
     (let step = (of_int days :: real) / of_int cnt;
          day = js_round (of_nat i * step + step / 2)
      in min (max day 1) days)"

text \<open>The template string \<open>`${year}-${mm}-${dd}`\<close> with both parts padded to two places.\<close>

definition ymdString :: "int \<Rightarrow> int \<Rightarrow> int \<Rightarrow> string" where
  "ymdString yr month d =
     jsString yr @ ''-'' @ padStart 2 (jsString month) @ ''-'' @ padStart 2 (jsString d)"

definition generateDatesForMonth :: "int \<Rightarrow> int \<Rightarrow> int \<Rightarrow> string list" where
  "generateDatesForMonth yr month cnt =
     (if cnt \<le> 0 then []
      else case daysInMonth yr month of
        None \<Rightarrow>
          map (\<lambda>i. jsString yr @ ''-'' @ padStart 2 (jsString month) @ ''-NaN'') [0..<nat cnt]
      | Some days \<Rightarrow>
          map (\<lambda>i. ymdString yr month (spacedDay days cnt i)) [0..<nat cnt])"

section \<open>src/logic/vrp.ts: greedy route\<close>

text \<open>
  A JavaScript number as the route code compares it: a real, \<open>Infinity\<close> (the initial
  best distance) or \<open>NaN\<close> (\<open>Math.sqrt\<close> of a negative number). \<open>js_less\<close> is \<open><\<close>:
  false whenever an operand is \<open>NaN\<close>.
\<close>

datatype jsnum = Num real | Infinity | NaN

fun js_less :: "jsnum \<Rightarrow> jsnum \<Rightarrow> bool" where
  "js_less (Num a) (Num b) = (a < b)"
| "js_less (Num a) Infinity = True"
| "js_less _ _ = False"

record Point =
  lat :: real
  lng :: real

record RouteCandidate = Point +
  id' :: int

definition toPoint :: "RouteCandidate \<Rightarrow> Point" where
  "toPoint c = \<lparr>lat = lat c, lng = lng c\<rparr>"

definition toRad :: "real \<Rightarrow> real" where
  "toRad d = (d * pi) / 180"

definition haversineKm :: "Point \<Rightarrow> Point \<Rightarrow> jsnum" where
  "haversineKm a b =
     (let R = 6371;
          dLat = toRad (lat b - lat a);
          dLng = toRad (lng b - lng a);
          lat1 = toRad (lat a);
          lat2 = toRad (lat b);
          h = (sin (dLat / 2))\<^sup>2 + cos lat1 * cos lat2 * (sin (dLng / 2))\<^sup>2
      in if h < 0 then NaN else Num (2 * R * arcsin (min 1 (sqrt h))))"

definition distanceKm :: "Point \<Rightarrow> Point \<Rightarrow> jsnum" where
  "distanceKm a b = haversineKm a b"

text \<open>
  The inner \<open>for\<close> loop of \<open>buildSimpleRoute\<close>, from index \<open>i\<close> on; the list holds
  \<open>remaining[i], remaining[i+1], ...\<close>.
\<close>

fun scanNearest :: "Point \<Rightarrow> RouteCandidate list \<Rightarrow> nat \<Rightarrow> nat \<Rightarrow> jsnum \<Rightarrow> nat" where
  "scanNearest current [] i bestIndex bestDist = bestIndex"
| "scanNearest current (c # cs) i bestIndex bestDist =
     (let d = distanceKm current (toPoint c)
      in if js_less d bestDist then scanNearest current cs (i + 1) i d
         else scanNearest current cs (i + 1) bestIndex bestDist)"

definition nearestIndex :: "Point \<Rightarrow> RouteCandidate list \<Rightarrow> nat" where
  "nearestIndex current remaining = scanNearest current remaining 0 0 Infinity"

lemma scanNearest_index:
  "scanNearest current cs i b bd = b \<or>
   (i \<le> scanNearest current cs i b bd \<and> scanNearest current cs i b bd < i + length cs)"
proof (induction cs arbitrary: i b bd)
  case Nil
  then show ?case by simp
next
  case (Cons c cs)
  show ?case
    using Cons.IH[of "i + 1" i "distanceKm current (toPoint c)"] Cons.IH[of "i + 1" b bd]
    by (auto simp: Let_def)
qed

lemma nearestIndex_less: "remaining \<noteq> [] \<Longrightarrow> nearestIndex current remaining < length remaining"
  using scanNearest_index[of current remaining 0 0 Infinity]
  by (auto simp: nearestIndex_def)

text \<open>
  The \<open>while\<close> loop: \<open>remaining.splice(bestIndex, 1)[0]\<close> takes the chosen stop out of
  \<open>remaining\<close> (\<open>bestIndex\<close> is always a valid index, \<open>nearestIndex_less\<close>).
\<close>

function routeLoop :: "RouteCandidate list \<Rightarrow> RouteCandidate list \<Rightarrow> Point \<Rightarrow> RouteCandidate list" where
  "routeLoop route remaining current =
     (if length remaining > 0 then
        let bestIndex = nearestIndex current remaining;
            next = remaining ! bestIndex;
            remaining' = take bestIndex remaining @ drop (Suc bestIndex) remaining
        in routeLoop (route @ [next]) remaining' (toPoint next)
      else route)"
  by pat_completeness auto
termination
proof (relation "measure (\<lambda>(route, remaining, current). length remaining)")
  show "wf (measure (\<lambda>(route, remaining, current). length remaining))"
    by simp
next
  fix route remaining :: "RouteCandidate list" and current :: Point and bestIndex nxt remaining'
  assume "0 < length remaining" and "bestIndex = nearestIndex current remaining"
    and "remaining' = take bestIndex remaining @ drop (Suc bestIndex) remaining"
  then show "((route @ [nxt], remaining', toPoint nxt), (route, remaining, current))
               \<in> measure (\<lambda>(route, remaining, current). length remaining)"
    using nearestIndex_less[of remaining current] by auto
qed

declare routeLoop.simps [simp del]

definition buildSimpleRoute :: "Point \<Rightarrow> RouteCandidate list \<Rightarrow> RouteCandidate list" where
  "buildSimpleRoute depot candidates = routeLoop [] candidates depot"

text \<open>
  The specification's words: each stop of the route is, among the stops from it on (the
  unvisited ones), one that no other is strictly nearer to the current position than; the
  position starts at the depot and moves to each chosen stop.
\<close>

fun nearestFirst :: "Point \<Rightarrow> RouteCandidate list \<Rightarrow> bool" where
  "nearestFirst current [] = True"
| "nearestFirst current (c # cs) =
     ((\<forall>x\<in>set (c # cs).
         \<not> js_less (haversineKm current (toPoint x)) (haversineKm current (toPoint c)))
      \<and> nearestFirst (toPoint c) cs)"

text \<open>
  The specification's words: the great-circle distance of two points by the haversine
  formula, for an Earth radius of 6371 km (coordinates in degrees), and a route whose every
  stop is, among the stops from it on, at minimum distance from the position before it.
\<close>

definition greatCircleKm :: "Point \<Rightarrow> Point \<Rightarrow> real" where
  "greatCircleKm a b =
     2 * 6371 * arcsin (sqrt ((sin ((lat b - lat a) * pi / 180 / 2))\<^sup>2
                              + cos (lat a * pi / 180) * cos (lat b * pi / 180)
                                * (sin ((lng b - lng a) * pi / 180 / 2))\<^sup>2))"

fun minimumDistanceOrder :: "Point \<Rightarrow> RouteCandidate list \<Rightarrow> bool" where
  "minimumDistanceOrder current [] = True"
| "minimumDistanceOrder current (c # cs) =
     ((\<forall>x\<in>set (c # cs). greatCircleKm current (toPoint c) \<le> greatCircleKm current (toPoint x))
      \<and> minimumDistanceOrder (toPoint c) cs)"

text \<open>A latitude in degrees is between -90 and 90.\<close>

definition validLatitude :: "Point \<Rightarrow> bool" where
  "validLatitude p = (- 90 \<le> lat p \<and> lat p \<le> 90)"

text \<open>The route scenario of the specification: a depot and two stops.\<close>

definition depot0 :: Point where
  "depot0 = \<lparr>lat = 34, lng = 132\<rparr>"

definition stopA :: RouteCandidate where
  "stopA = \<lparr>lat = 34.01, lng = 132, id' = 1\<rparr>"

definition stopB :: RouteCandidate where
  "stopB = \<lparr>lat = 34, lng = 132.05, id' = 2\<rparr>"

section \<open>Date strings\<close>

text \<open>
  \<open>date.toISOString().slice(0, 10)\<close> for a valid \<open>Date\<close> at 00:00 UTC of a calendar date:
  a year from 0 to 9999 is printed with four digits, any other year with a sign and six
  digits, so that the first ten characters are \<open>YYYY-MM-DD\<close> or \<open>\<plusminus>YYYYYY-MM\<close>.
\<close>

definition isoYear :: "int \<Rightarrow> string" where
  "isoYear y =
     (if 0 \<le> y \<and> y \<le> 9999 then padStart 4 (natString (nat y))
      else (if y < 0 then ''-'' else ''+'') @ padStart 6 (natString (nat \<bar>y\<bar>)))"

definition isoDate10 :: "date \<Rightarrow> string" where
  "isoDate10 dt = (case dt of (y, m, d) \<Rightarrow>
     take 10 (isoYear y @ ''-'' @ padStart 2 (natString (nat m))
                @ ''-'' @ padStart 2 (natString (nat d))))"

text \<open>
  \<open>new Date(`${ymd}T00:00:00+09:00`)\<close>. The string is read by the ECMAScript date-time
  format: \<open>YYYY-MM-DD\<close> with a month from 01 to 12 and a day of that month, or the form
  \<open>\<plusminus>YYYYYY-MM\<close> that \<open>isoDate10\<close> produces for years beyond 9999 (the first of that
  month; \<open>-000000\<close> is not a year). Any other string gives an Invalid Date (engines may
  accept more, for example day 31 of a shorter month).
\<close>

fun expandedYearMonth :: "string \<Rightarrow> (int \<times> int) option" where
  "expandedYearMonth [sg, y1, y2, y3, y4, y5, y6, s1, m1, m2] =
     (if (sg = CHR ''+'' \<or> sg = CHR ''-'') \<and> isDigit y1 \<and> isDigit y2 \<and> isDigit y3
          \<and> isDigit y4 \<and> isDigit y5 \<and> isDigit y6 \<and> s1 = CHR ''-'' \<and> isDigit m1 \<and> isDigit m2
          \<and> \<not> (sg = CHR ''-'' \<and> digitsValue [y1, y2, y3, y4, y5, y6] = 0)
      then Some ((if sg = CHR ''-'' then - int (digitsValue [y1, y2, y3, y4, y5, y6])
                  else int (digitsValue [y1, y2, y3, y4, y5, y6])),
                 int (digitsValue [m1, m2]))
      else None)"
| "expandedYearMonth _ = None"

definition parseYmd :: "string \<Rightarrow> date option" where
  "parseYmd ymd =
     (if ISO_YMD ymd then
        let y = int (digitsValue (take 4 ymd));
            m = int (digitsValue (take 2 (drop 5 ymd)));
            d = int (digitsValue (drop 8 ymd))
        in if validDate (y, m, d) then timeClip (y, m, d) else None
      else case expandedYearMonth ymd of
        Some (y, m) \<Rightarrow> if 1 \<le> m \<and> m \<le> 12 then timeClip (y, m, 1) else None
      | None \<Rightarrow> None)"

datatype error =
    EmptyHistory       \<comment> \<open>\<open>Error('historyDates ...')\<close>: the history list is empty\<close>
  | NoValidHistory     \<comment> \<open>\<open>Error\<close>: no usable history date\<close>
  | NoBaseYearHistory  \<comment> \<open>\<open>Error\<close>: no history in the base year\<close>
  | RangeError         \<comment> \<open>\<open>toISOString()\<close> of an Invalid Date\<close>

text \<open>\<open>jstYmdFromDate\<close>: \<open>toISOString\<close> throws a \<open>RangeError\<close> on an Invalid Date.\<close>

definition jstYmdFromDate :: "date option \<Rightarrow> error + string" where
  "jstYmdFromDate d = (case d of None \<Rightarrow> Inl RangeError | Some dt \<Rightarrow> Inr (isoDate10 dt))"

text \<open>
  The runtime's time zone, as far as \<open>setDate\<close> and \<open>getDate\<close> depend on it. For each
  date, \<open>summerAt\<close> says whether summer time is in force at 00:00 standard time of that
  date, and \<open>summerMidnight\<close> whether the engine reads the local time 00:00 of that date
  as summer time (a local time that a clock change skips or repeats is read with the
  offset before the change).
\<close>

record zone =
  summerAt :: "date \<Rightarrow> bool"
  summerMidnight :: "date \<Rightarrow> bool"

text \<open>
  The zone Asia/Tokyo: summer time from 00:00 standard time of the first date to
  00:00 standard time of the second, in the years 1948 to 1951.
\<close>

definition tokyoSummers :: "(date \<times> date) list" where
  "tokyoSummers =
     [((1948, 5, 2), (1948, 9, 12)), ((1949, 4, 3), (1949, 9, 11)),
      ((1950, 5, 7), (1950, 9, 10)), ((1951, 5, 6), (1951, 9, 9))]"

definition asiaTokyo :: zone where
  "asiaTokyo =
     \<lparr>summerAt = (\<lambda>d. list_ex (\<lambda>(s, e). s \<le> d \<and> d < e) tokyoSummers),
      summerMidnight = (\<lambda>d. list_ex (\<lambda>(s, e). s < d \<and> d \<le> e) tokyoSummers)\<rparr>"

text \<open>
  \<open>d.setDate(d.getDate() + days)\<close> on a \<open>Date\<close> at 00:00 standard time (what \<open>parseYmd\<close>
  gives); an Invalid Date stays invalid. The local time of \<open>d\<close> is 00:00 of its date, or
  01:00 in summer time, and \<open>setDate\<close> keeps that time of day on the new local date. From
  01:00 the new instant is at 00:00 or 01:00 standard time of the new date. From 00:00 it
  is at 00:00 standard time of the new date, unless 00:00 there is summer time: then it is
  at 23:00 standard time of the day before, which is the date \<open>jstYmdFromDate\<close> prints.
\<close>

definition setDatePlus :: "zone \<Rightarrow> date option \<Rightarrow> int \<Rightarrow> date option" where
  "setDatePlus tz d days =
     (case d of
        None \<Rightarrow> None
      | Some dt \<Rightarrow>
          (case timeClip (plusDays dt days) of
             None \<Rightarrow> None
           | Some t \<Rightarrow> Some (if \<not> summerAt tz dt \<and> summerMidnight tz t then prevDay t else t)))"

definition addDaysYmd :: "zone \<Rightarrow> string \<Rightarrow> int \<Rightarrow> error + string" where
  "addDaysYmd tz ymd days = jstYmdFromDate (setDatePlus tz (parseYmd ymd) days)"

definition maxYmd :: "string \<Rightarrow> string \<Rightarrow> string" where
  "maxYmd a b = (if a \<ge> b then a else b)"

section \<open>src/logic/forecast.ts: the plan from the history\<close>

text \<open>
  \<open>byYear\<close> is an object keyed by the year; its entries are enumerated by ascending year
  (integer keys). It is a list of (year, dates) pairs in that order.
  \<open>byYear[y].push(d)\<close>, after \<open>if (!byYear[y]) byYear[y] = []\<close>:
\<close>

fun pushYear :: "int \<Rightarrow> string \<Rightarrow> (int \<times> string list) list \<Rightarrow> (int \<times> string list) list" where
  "pushYear y d [] = [(y, [d])]"
| "pushYear y d ((k, ds) # rest) =
     (if y = k then (k, ds @ [d]) # rest
      else if y < k then (y, [d]) # (k, ds) # rest
      else (k, ds) # pushYear y d rest)"

definition splitHistoryByYear :: "string list \<Rightarrow> int \<Rightarrow> int \<Rightarrow> (int \<times> string list) list" where
  "splitHistoryByYear historyDates baseYear maxYearsBack =
     (let minYear = baseYear - maxYearsBack;
          byYear = foldl (\<lambda>acc d.
                     if d = [] \<or> \<not> ISO_YMD d then acc
                     else let y = int (digitsValue (take 4 d))
                          in if y > baseYear then acc
                             else if y < minYear then acc
                             else pushYear y d acc) [] historyDates
      in map (\<lambda>(y, ds). (y, sort ds)) byYear)"

definition calcYearlyCounts :: "(int \<times> string list) list \<Rightarrow> YearlyCount list" where
  "calcYearlyCounts byYear =
     sort_key year (map (\<lambda>(y, dates). \<lparr>year = y, count = int (length dates)\<rparr>) byYear)"

text \<open>The inner loop of \<open>calcMonthlyWeights\<close>: \<open>targetArr[m - 1] += 1\<close> for each date.\<close>

definition tallyMonths :: "int list \<Rightarrow> string list \<Rightarrow> int list" where
  "tallyMonths targetArr dates =
     foldl (\<lambda>arr d.
        if d = [] \<or> \<not> ISO_YMD d then arr
        else let m = digitsValue (take 2 (drop 5 d))
             in if m < 1 \<or> m > 12 then arr
                else arr[m - 1 := arr ! (m - 1) + 1]) targetArr dates"

definition calcMonthlyWeights :: "(int \<times> string list) list \<Rightarrow> int \<Rightarrow> real \<Rightarrow> real \<Rightarrow> real list" where
  "calcMonthlyWeights byYear baseYear wLast wPast =
     (let (last, past) =
            foldl (\<lambda>(last, past) (y, dates).
                     if y = baseYear then (tallyMonths last dates, past)
                     else (last, tallyMonths past dates))
              (replicate 12 0, replicate 12 0) byYear;
          weights = map (\<lambda>i. wLast * of_int (last ! i) + wPast * of_int (past ! i)) [0..<12];
          sum = foldl (+) 0 weights
      in if sum \<le> 0 then replicate 12 (1 / 12)
         else map (\<lambda>w. w / sum) weights)"

text \<open>\<open>monthStart > endDate\<close> on two \<open>Date\<close>s: false when either is invalid.\<close>

definition dateGreater :: "date option \<Rightarrow> date option \<Rightarrow> bool" where
  "dateGreater a b = (case (a, b) of (Some x, Some y) \<Rightarrow> x > y | _ \<Rightarrow> False)"

text \<open>
  The \<open>while (true)\<close> loop over the months: \<open>None\<close> when it never breaks. A count that is
  not a number generates no date.
\<close>

partial_function (option) monthsLoop ::
  "int option list \<Rightarrow> date option \<Rightarrow> int \<Rightarrow> int \<Rightarrow> string list \<Rightarrow> string list option" where
  "monthsLoop monthlyCounts endDate y m plannedDatesAll =
     (if dateGreater (jsMakeDate y (m - 1) 1) endDate then Some plannedDatesAll
      else
        let idx = m - 1;
            dates = (case arrGet monthlyCounts (nat idx) of
                       None \<Rightarrow> []
                     | Some cnt \<Rightarrow> generateDatesForMonth y m cnt)
        in if m = 12 then monthsLoop monthlyCounts endDate (y + 1) 1 (plannedDatesAll @ dates)
           else monthsLoop monthlyCounts endDate y (m + 1) (plannedDatesAll @ dates))"

declare monthsLoop.simps [code]

record PlanResult =
  targetYearCount :: int
  monthlyCounts :: "int option list"
  plannedDates :: "string list"

text \<open>\<open>startFromYmd && ISO_YMD.test(startFromYmd) ? startFromYmd : defaultStart\<close>\<close>

definition startYmdOf :: "int \<Rightarrow> string option \<Rightarrow> string" where
  "startYmdOf baseYear startFromYmd =
     (let defaultStart = jsString (baseYear + 1) @ ''-01-01''
      in case startFromYmd of
           Some s \<Rightarrow> if s \<noteq> [] \<and> ISO_YMD s then s else defaultStart
         | None \<Rightarrow> defaultStart)"

text \<open>
  \<open>buildPlanFromHistory\<close>: \<open>Some (Inl e)\<close> when it throws \<open>e\<close>, \<open>Some (Inr r)\<close> when it
  returns \<open>r\<close>, \<open>None\<close> when it does not return. \<open>horizonDays\<close> is an integer (370 by
  default). With an invalid start \<open>Date\<close> (not reached: \<open>addDaysYmd\<close> has thrown) the year
  and month would be \<open>NaN\<close> and the loop endless.
\<close>

definition buildPlanFromHistory ::
  "zone \<Rightarrow> string list \<Rightarrow> int \<Rightarrow> string option \<Rightarrow> int \<Rightarrow> (error + PlanResult) option" where
  "buildPlanFromHistory tz historyDates baseYear startFromYmd horizonDays =
     (if length historyDates = 0 then Some (Inl EmptyHistory)
      else
        let byYear = splitHistoryByYear historyDates baseYear 3;
            yearlyCounts = calcYearlyCounts byYear
        in if length yearlyCounts = 0 then Some (Inl NoValidHistory)
           else case find (\<lambda>s. year s = baseYear) yearlyCounts of
             None \<Rightarrow> Some (Inl NoBaseYearHistory)
           | Some lastYearStat \<Rightarrow>
               if count lastYearStat \<le> 0 then Some (Inl NoBaseYearHistory)
               else
                 let target = decideTargetYearCount yearlyCounts baseYear;
                     shares = calcMonthlyWeights byYear baseYear (7 / 10) (3 / 10);
                     monthly = makeMonthlyTargets target shares;
                     startYmd = startYmdOf baseYear startFromYmd
                 in case addDaysYmd tz startYmd horizonDays of
                      Inl e \<Rightarrow> Some (Inl e)
                    | Inr endYmd \<Rightarrow>
                        (case parseYmd startYmd of
                           None \<Rightarrow> None
                         | Some (y, m, d) \<Rightarrow>
                             (case monthsLoop monthly (parseYmd endYmd) y m [] of
                                None \<Rightarrow> None
                              | Some plannedDatesAll \<Rightarrow>
                                  Some (Inr \<lparr>targetYearCount = target,
                                             monthlyCounts = monthly,
                                             plannedDates =
                                               sort (filter (\<lambda>d. d \<ge> startYmd \<and> d \<le> endYmd)
                                                      plannedDatesAll)\<rparr>))))"


section \<open>src/utils/predict.ts and src/db.ts: cycle lengths and the skip loop\<close>

text \<open>Both files define \<open>cycleDaysFromTank\<close> with the same body. The tank types \<open>'A'\<close>, \<open>'B'\<close> and \<open>'C'\<close>.\<close>

datatype TankType = TankA | TankB | TankC

definition cycleDaysFromTank :: "TankType option \<Rightarrow> int option \<Rightarrow> int" where
  "cycleDaysFromTank t fallback =
     (if t = Some TankA then 38
      else if t = Some TankB then 42
      else if t = Some TankC then 51
      else case fallback of Some f \<Rightarrow> f | None \<Rightarrow> 42)"

text \<open>
  \<open>while (next <= today) next = addDaysYmd(next, cycle)\<close>, the loop of
  \<open>predictNextDatePhaseAligned\<close> and of the fallback branch of
  \<open>buildMonthlyPlanByThreshold\<close>. The result is \<open>None\<close> when the loop runs forever.
\<close>

partial_function (option) skipPast ::
  "zone \<Rightarrow> string \<Rightarrow> int \<Rightarrow> string \<Rightarrow> (error + string) option" where
  "skipPast tz next cycle today =
     (if next \<le> today then
        (case addDaysYmd tz next cycle of
           Inl e \<Rightarrow> Some (Inl e)
         | Inr n \<Rightarrow> skipPast tz n cycle today)
      else Some (Inr next))"

declare skipPast.simps [code]

text \<open>\<open>let next = addDaysYmd(base, cycle); while (next <= today) ...\<close>\<close>

definition phaseAlignedNext ::
  "zone \<Rightarrow> string \<Rightarrow> int \<Rightarrow> string \<Rightarrow> (error + string) option" where
  "phaseAlignedNext tz base cycle today =
     (case addDaysYmd tz base cycle of
        Inl e \<Rightarrow> Some (Inl e)
      | Inr next \<Rightarrow> skipPast tz next cycle today)"


section \<open>src/pages/Reception.tsx: next date at registration\<close>

text \<open>
  What the \<open>fetch\<close> of \<open>/api/predict-next\<close> can give: the call throws, or a response
  arrives with a status and a body. The body is not JSON, or a falsy JSON value
  (\<open>null\<close>, \<open>0\<close>, \<open>""\<close>, \<open>false\<close>), or a value with the fields \<open>next\<close> and \<open>nextDate\<close>:
  \<open>nextField\<close> is \<open>j.next\<close> when that is a string, \<open>nextDateField\<close> is \<open>j.nextDate\<close> (as a
  string) unless it is \<open>undefined\<close> or \<open>null\<close>.
\<close>

datatype JsonBody =
    Malformed
  | Falsy
  | Payload (nextField: "string option") (nextDateField: "string option")

datatype ApiResult =
    FetchError
  | Response (status: int) (body: JsonBody)

definition predictNextByApi :: "ApiResult \<Rightarrow> string option" where
  "predictNextByApi r =
     (case r of
        FetchError \<Rightarrow> None
      | Response st b \<Rightarrow>
          if \<not> (200 \<le> st \<and> st \<le> 299) then None
          else (case b of
                  Malformed \<Rightarrow> None
                | Falsy \<Rightarrow> None
                | Payload nx nd \<Rightarrow>
                    (case (case nx of Some s \<Rightarrow> Some s | None \<Rightarrow> nd) of
                       None \<Rightarrow> None
                     | Some isoStr \<Rightarrow> if isoStr \<noteq> [] \<and> ISO_YMD isoStr then Some isoStr else None)))"






text \<open>
  The specification's words for a failed call: a fetch error, a status outside 2xx (a
  missing endpoint answers 404), a body that is not JSON, or a body without a valid
  \<open>YYYY-MM-DD\<close> date.
\<close>

definition validPayload :: "JsonBody \<Rightarrow> bool" where
  "validPayload b =
     (case b of
        Payload (Some s) nd \<Rightarrow> ISO_YMD s
      | Payload None (Some s) \<Rightarrow> ISO_YMD s
      | _ \<Rightarrow> False)"

definition apiFailed :: "ApiResult \<Rightarrow> bool" where
  "apiFailed r =
     (case r of
        FetchError \<Rightarrow> True
      | Response st b \<Rightarrow> st < 200 \<or> 299 < st \<or> \<not> validPayload b)"

section \<open>src/db.ts: reconciliation of the plan store\<close>

text \<open>
  The rows of the tables, with the fields the reconciliation reads. A customer's \<open>id\<close> may
  be absent (\<open>c?.id == null\<close>); ids are integers. The table \<open>plans\<close> is keyed by the field
  \<open>id\<close> of its rows, so it is a map from that id to the other two fields.
\<close>

record Customer =
  customer_id :: "int option"
  customer_tankType :: "TankType option"

record Order =
  order_customerId :: int
  order_date :: string

record PlanRecord =
  dateISO :: string
  customerId :: int

type_synonym plans = "string \<rightharpoonup> PlanRecord"

text \<open>\<open>Number(s)\<close> for a string of decimal digits with an optional sign.\<close>

definition jsNumber :: "string \<Rightarrow> int" where
  "jsNumber s =
     (case s of
        [] \<Rightarrow> 0
      | c # r \<Rightarrow> if c = CHR ''-'' then - int (digitsValue r)
                 else if c = CHR ''+'' then int (digitsValue r)
                 else int (digitsValue s))"

definition getLastDeliveredYmd :: "Order list \<Rightarrow> int \<Rightarrow> string option" where
  "getLastDeliveredYmd orders cid =
     foldl (\<lambda>last ord.
              if order_date ord \<noteq> [] \<and> ISO_YMD (order_date ord)
              then (case last of Some l \<Rightarrow> Some (maxYmd l (order_date ord))
                               | None \<Rightarrow> Some (order_date ord))
              else last)
       None (filter (\<lambda>ord. order_customerId ord = cid) orders)"

definition getHistoryDatesForCustomer :: "Order list \<Rightarrow> int \<Rightarrow> int \<Rightarrow> int \<Rightarrow> string list" where
  "getHistoryDatesForCustomer orders cid baseYear maxYearsBack =
     (let rows = filter (\<lambda>ord. order_customerId ord = cid) orders;
          minYear = baseYear - maxYearsBack
      in sort (filter (\<lambda>d. d \<noteq> [] \<and> ISO_YMD d
                           \<and> \<not> int (digitsValue (take 4 d)) > baseYear
                           \<and> \<not> int (digitsValue (take 4 d)) < minYear)
                 (map order_date rows)))"

definition planId :: "string \<Rightarrow> int \<Rightarrow> string" where
  "planId date cid = date @ ''#'' @ jsString cid"

definition upsertPlan :: "string \<Rightarrow> int \<Rightarrow> plans \<Rightarrow> plans" where
  "upsertPlan date cid plans = plans(planId date cid \<mapsto> \<lparr>dateISO = date, customerId = cid\<rparr>)"

definition deleteFuturePlansForCustomer :: "int \<Rightarrow> string \<Rightarrow> plans \<Rightarrow> plans" where
  "deleteFuturePlansForCustomer cid fromYmd plans =
     (\<lambda>k. case plans k of
             None \<Rightarrow> None
           | Some p \<Rightarrow> if customerId p = cid \<and> dateISO p \<ge> fromYmd then None else Some p)"

definition deleteAllPlansForCustomer :: "int \<Rightarrow> plans \<Rightarrow> plans" where
  "deleteAllPlansForCustomer cid plans =
     (\<lambda>k. case plans k of
             None \<Rightarrow> None
           | Some p \<Rightarrow> if customerId p = cid then None else Some p)"

text \<open>
  \<open>while (next <= horizonEnd) { await upsertPlan(next, cid); next = addDaysYmd(next, cycle) }\<close>.
  A result is the error thrown, if any, and the store as it is left; \<open>None\<close> when the loop
  runs forever.
\<close>

partial_function (option) fillPlans ::
  "zone \<Rightarrow> string \<Rightarrow> int \<Rightarrow> int \<Rightarrow> string \<Rightarrow> plans \<Rightarrow> (error option \<times> plans) option" where
  "fillPlans tz horizonEnd cycle cid next plans =
     (if next \<le> horizonEnd then
        (case addDaysYmd tz next cycle of
           Inl e \<Rightarrow> Some (Some e, upsertPlan next cid plans)
         | Inr n \<Rightarrow> fillPlans tz horizonEnd cycle cid n (upsertPlan next cid plans))
      else Some (None, plans))"

declare fillPlans.simps [code]

text \<open>The loop over \<open>plannedDates\<close> that stores the dates from today on.\<close>

definition registerPlanned :: "string \<Rightarrow> int \<Rightarrow> string list \<Rightarrow> plans \<Rightarrow> plans" where
  "registerPlanned today cid dates plans =
     foldl (\<lambda>p d. if \<not> ISO_YMD d then p
                   else if d < today then p
                   else upsertPlan d cid p) plans dates"

text \<open>The fixed-cycle fallback for one customer (part 2 of the loop body).\<close>

definition fallbackPlan ::
  "zone \<Rightarrow> string \<Rightarrow> string \<Rightarrow> int \<Rightarrow> Order list \<Rightarrow> Customer \<Rightarrow> int \<Rightarrow> plans
     \<Rightarrow> (error option \<times> plans) option" where
  "fallbackPlan tz today horizonEnd fallbackCycleDays orders c cid plans =
     (case getLastDeliveredYmd orders cid of
        None \<Rightarrow> Some (None, deleteAllPlansForCustomer cid plans)
      | Some lastYmd \<Rightarrow>
          let plans1 = deleteFuturePlansForCustomer cid today plans;
              cycle = cycleDaysFromTank (customer_tankType c) (Some fallbackCycleDays)
          in (case phaseAlignedNext tz lastYmd cycle today of
                None \<Rightarrow> None
              | Some (Inl e) \<Rightarrow> Some (Some e, plans1)
              | Some (Inr next) \<Rightarrow> fillPlans tz horizonEnd cycle cid next plans1))"

text \<open>
  The body of \<open>for (const c of customers)\<close>: the forecast when the base year has a
  delivery, the fallback otherwise or when the forecast throws.
\<close>

definition planCustomer ::
  "zone \<Rightarrow> string \<Rightarrow> string \<Rightarrow> int \<Rightarrow> int \<Rightarrow> int \<Rightarrow> int \<Rightarrow> Order list \<Rightarrow> Customer \<Rightarrow> plans
     \<Rightarrow> (error option \<times> plans) option" where
  "planCustomer tz today horizonEnd horizonDays fallbackCycleDays maxYearsBack baseYear orders c plans =
     (case customer_id c of
        None \<Rightarrow> Some (None, plans)
      | Some cid \<Rightarrow>
          let historyDates = getHistoryDatesForCustomer orders cid baseYear maxYearsBack;
              baseYearDates = filter (\<lambda>d. take 4 d = jsString baseYear) historyDates
          in if length baseYearDates > 0 then
               let plans1 = deleteFuturePlansForCustomer cid today plans
               in (case buildPlanFromHistory tz historyDates baseYear (Some today) horizonDays of
                     None \<Rightarrow> None
                   | Some (Inr r) \<Rightarrow> Some (None, registerPlanned today cid (plannedDates r) plans1)
                   | Some (Inl e) \<Rightarrow>
                       fallbackPlan tz today horizonEnd fallbackCycleDays orders c cid plans1)
             else fallbackPlan tz today horizonEnd fallbackCycleDays orders c cid plans)"

text \<open>The loop over the customers; an error ends it.\<close>

fun forCustomers ::
  "(Customer \<Rightarrow> plans \<Rightarrow> (error option \<times> plans) option) \<Rightarrow> Customer list \<Rightarrow> plans
     \<Rightarrow> (error option \<times> plans) option" where
  "forCustomers step [] plans = Some (None, plans)"
| "forCustomers step (c # cs) plans =
     (case step c plans of
        None \<Rightarrow> None
      | Some (Some e, plans1) \<Rightarrow> Some (Some e, plans1)
      | Some (None, plans1) \<Rightarrow> forCustomers step cs plans1)"

text \<open>
  The options object: a field is \<open>None\<close> when it is absent or not a finite number (finite
  numbers are integers here). \<open>now\<close> is the calendar date of \<open>new Date()\<close> in Japan.
\<close>

record PlanOpts =
  horizonDays :: "int option"
  fallbackCycleDays :: "int option"
  maxYearsBack :: "int option"

definition finiteOr :: "int option \<Rightarrow> int \<Rightarrow> int" where
  "finiteOr v dflt = (case v of Some n \<Rightarrow> n | None \<Rightarrow> dflt)"

definition buildMonthlyPlanByThreshold ::
  "zone \<Rightarrow> PlanOpts \<Rightarrow> date \<Rightarrow> Order list \<Rightarrow> Customer list \<Rightarrow> plans \<Rightarrow> (error option \<times> plans) option" where
  "buildMonthlyPlanByThreshold tz opts now orders customers plans =
     (let hDays = finiteOr (horizonDays opts) 370;
          fbCycle = finiteOr (fallbackCycleDays opts) 42;
          yBack = finiteOr (maxYearsBack opts) 3;
          today = isoDate10 now
      in (case addDaysYmd tz today hDays of
            Inl e \<Rightarrow> Some (Some e, plans)
          | Inr horizonEnd \<Rightarrow>
              let currentYear = jsNumber (take 4 today);
                  baseYear = currentYear - 1
              in forCustomers
                   (planCustomer tz today horizonEnd hDays fbCycle yBack baseYear orders)
                   customers plans))"


section \<open>src/utils/predict.ts: phase-aligned next date\<close>

text \<open>
  The options object; an absent field is \<open>None\<close>. \<open>cycleDays\<close> holds a finite number (an
  integer here) or is absent. \<open>now\<close> is \<open>jstYmdFromDate(new Date())\<close>, the clock's date.
\<close>

record PredictOpts =
  tankType :: "TankType option"
  cycleDays :: "int option"
  lastDate :: "string option"
  historyDates :: "string list option"
  today :: "string option"

definition predictNextDatePhaseAligned ::
  "zone \<Rightarrow> string \<Rightarrow> PredictOpts \<Rightarrow> (error + string) option" where
  "predictNextDatePhaseAligned tz now opts =
     (let today' = (case today opts of Some t \<Rightarrow> t | None \<Rightarrow> now);
          cycle = (case cycleDays opts of Some c \<Rightarrow> c | None \<Rightarrow> cycleDaysFromTank (tankType opts) None);
          base0 = (case historyDates opts of
                     Some hs \<Rightarrow>
                       if length hs > 0
                       then foldl (\<lambda>m s. if m \<noteq> [] then maxYmd m s else s) [] (filter ISO_YMD hs)
                       else []
                   | None \<Rightarrow> []);
          base = (if base0 = [] then
                    (case lastDate opts of
                       Some l \<Rightarrow> if ISO_YMD l then l else base0
                     | None \<Rightarrow> base0)
                  else base0)
      in if base = [] then Some (addDaysYmd tz today' cycle)
         else phaseAlignedNext tz base cycle today')"


section \<open>Auxiliary notions of the proofs\<close>

text \<open>The number of months from index \<open>idx\<close> on whose count is positive.\<close>

definition positivesFrom :: "int list \<Rightarrow> nat \<Rightarrow> nat" where
  "positivesFrom ms idx = length (filter (\<lambda>i. 0 < ms ! i) [idx..<12])"

text \<open>The \<open>w\<close> low decimal digits of a number, most significant first.\<close>

fun fixedDigits :: "nat \<Rightarrow> nat \<Rightarrow> string" where
  "fixedDigits 0 n = []"
| "fixedDigits (Suc w) n = fixedDigits w (n div 10) @ [digitChar (n mod 10)]"

text \<open>A valid calendar date whose year has four digits (0 to 9999).\<close>

definition fourDigitDate :: "date \<Rightarrow> bool" where
  "fourDigitDate dt = (validDate dt \<and> 0 \<le> fst dt \<and> fst dt \<le> 9999)"

text \<open>The date \<open>addDaysYmd\<close> prints for a date and a number of days, in a zone.\<close>

definition arrivalDate :: "zone \<Rightarrow> date \<Rightarrow> int \<Rightarrow> date" where
  "arrivalDate tz dt n =
     (if \<not> summerAt tz dt \<and> summerMidnight tz (plusDays dt n) then prevDay (plusDays dt n)
      else plusDays dt n)"

text \<open>A number that grows with the date (by at least one per day).\<close>

definition dayIndex :: "date \<Rightarrow> int" where
  "dayIndex dt = (case dt of (y, m, d) \<Rightarrow> 372 * y + 31 * m + d)"

text \<open>The claim's words: a history string in the format \<open>YYYY-MM-DD\<close> whose year is the base year.\<close>

definition hasBaseYearDate :: "string list \<Rightarrow> int \<Rightarrow> bool" where
  "hasBaseYearDate hs baseYear =
     (\<exists>d\<in>set hs. ISO_YMD d \<and> int (digitsValue (take 4 d)) = baseYear)"

text \<open>The dates one pass of the month loop appends, and the months the loop visits.\<close>

definition monthDates :: "int option list \<Rightarrow> int \<Rightarrow> int \<Rightarrow> string list" where
  "monthDates mc y m =
     (case arrGet mc (nat (m - 1)) of None \<Rightarrow> [] | Some cnt \<Rightarrow> generateDatesForMonth y m cnt)"

function monthsUpTo :: "date \<Rightarrow> int \<Rightarrow> int \<Rightarrow> (int \<times> int) list" where
  "monthsUpTo e y m =
     (if 1 \<le> m \<and> m \<le> 12 \<and> (y, m, 1) \<le> e
      then (y, m) # (if m = 12 then monthsUpTo e (y + 1) 1 else monthsUpTo e y (m + 1))
      else [])"
  by pat_completeness auto
termination
proof (relation "measure (\<lambda>(e, y, m). nat (12 * (fst e - y + 1) + (12 - m)))")
  show "wf (measure (\<lambda>(e, y, m). nat (12 * (fst e - y + 1) + (12 - m))))"
    by simp
next
  fix e :: date and y m :: int
  assume a: "1 \<le> m \<and> m \<le> 12 \<and> (y, m, 1) \<le> e" and m: "m = 12"
  obtain ey em ed where e: "e = (ey, em, ed)"
    by (cases e) auto
  show "((e, y + 1, 1), (e, y, m)) \<in> measure (\<lambda>(e, y, m). nat (12 * (fst e - y + 1) + (12 - m)))"
    using a m by (auto simp: e)
next
  fix e :: date and y m :: int
  assume a: "1 \<le> m \<and> m \<le> 12 \<and> (y, m, 1) \<le> e" and m: "m \<noteq> 12"
  obtain ey em ed where e: "e = (ey, em, ed)"
    by (cases e) auto
  show "((e, y, m + 1), (e, y, m)) \<in> measure (\<lambda>(e, y, m). nat (12 * (fst e - y + 1) + (12 - m)))"
    using a m by (auto simp: e)
qed

declare monthsUpTo.simps [simp del]

text \<open>The test and the step of the loop of \<open>splitHistoryByYear\<close>.\<close>

definition keptYear :: "int \<Rightarrow> int \<Rightarrow> string \<Rightarrow> bool" where
  "keptYear baseYear minYear d =
     (d \<noteq> [] \<and> ISO_YMD d \<and> int (digitsValue (take 4 d)) \<le> baseYear
      \<and> minYear \<le> int (digitsValue (take 4 d)))"

definition splitStep :: "int \<Rightarrow> int \<Rightarrow> (int \<times> string list) list \<Rightarrow> string \<Rightarrow> (int \<times> string list) list" where
  "splitStep baseYear minYear acc d =
     (if d = [] \<or> \<not> ISO_YMD d then acc
      else let y = int (digitsValue (take 4 d))
           in if y > baseYear then acc
              else if y < minYear then acc
              else pushYear y d acc)"

text \<open>The result \<open>buildPlanFromHistory\<close> returns for the dates its loop has collected.\<close>

definition planOf :: "string list \<Rightarrow> int \<Rightarrow> string option \<Rightarrow> string \<Rightarrow> string list \<Rightarrow> PlanResult" where
  "planOf hs B start endYmd plannedDatesAll =
     (let byYear = splitHistoryByYear hs B 3;
          target = decideTargetYearCount (calcYearlyCounts byYear) B;
          monthly = makeMonthlyTargets target (calcMonthlyWeights byYear B (7 / 10) (3 / 10))
      in \<lparr>targetYearCount = target, monthlyCounts = monthly,
          plannedDates = sort (filter (\<lambda>d. d \<ge> startYmdOf B start \<and> d \<le> endYmd) plannedDatesAll)\<rparr>)"


section \<open>Yearly target: bounds\<close>

lemma js_round_nonneg: "0 \<le> x \<Longrightarrow> 0 \<le> js_round x"
  by (simp add: js_round_def)

lemma averageCount_nonneg:
  assumes "\<forall>s\<in>set ycs. 0 \<le> count s"
  shows "0 \<le> averageCount ycs"
proof -
  have "0 \<le> sum_list (map count ycs)"
    using assms by (intro sum_list_nonneg) auto
  then show ?thesis
    by (simp add: averageCount_def)
qed

lemma clamp_bounds_ordered:
  assumes "0 < (n::int)"
  shows "\<lfloor>of_int n * (85 / 100 :: real)\<rfloor> \<le> \<lceil>of_int n * (13 / 10 :: real)\<rceil>"
proof -
  have "(of_int n :: real) * (85 / 100) \<le> of_int n * (13 / 10)"
    using assms by simp
  then have "\<lfloor>of_int n * (85 / 100 :: real)\<rfloor> \<le> \<lfloor>of_int n * (13 / 10 :: real)\<rfloor>"
    by (rule floor_mono)
  also have "\<dots> \<le> \<lceil>of_int n * (13 / 10 :: real)\<rceil>"
    by (rule floor_le_ceiling)
  finally show ?thesis .
qed

text \<open>
  Claim C4. If the list is non-empty and the base-year count is \<open>N > 0\<close>, the target lies
  between \<open>floor(0.85 N)\<close> and \<open>ceil(1.3 N)\<close> or equals \<open>N\<close>, and it is positive. For every
  list of (non-negative) counts, empty or without a base-year entry included, the target
  is at least 0.
\<close>

theorem decideTargetYearCount_bounds:
  "(ycs \<noteq> [] \<and> 0 < lastYearCountOf ycs B \<longrightarrow>
      ((\<lfloor>of_int (lastYearCountOf ycs B) * (85 / 100 :: real)\<rfloor> \<le> decideTargetYearCount ycs B
          \<and> decideTargetYearCount ycs B \<le> \<lceil>of_int (lastYearCountOf ycs B) * (13 / 10 :: real)\<rceil>)
        \<or> decideTargetYearCount ycs B = lastYearCountOf ycs B)
      \<and> 0 < decideTargetYearCount ycs B)
   \<and> ((\<forall>s\<in>set ycs. 0 \<le> count s) \<longrightarrow> 0 \<le> decideTargetYearCount ycs B)"
proof (intro conjI impI)
  assume a: "ycs \<noteq> [] \<and> 0 < lastYearCountOf ycs B"
  let ?n = "lastYearCountOf ycs B"
  have ord: "\<lfloor>of_int ?n * (85 / 100 :: real)\<rfloor> \<le> \<lceil>of_int ?n * (13 / 10 :: real)\<rceil>"
    using a by (intro clamp_bounds_ordered) simp
  show "(\<lfloor>of_int ?n * (85 / 100 :: real)\<rfloor> \<le> decideTargetYearCount ycs B
          \<and> decideTargetYearCount ycs B \<le> \<lceil>of_int ?n * (13 / 10 :: real)\<rceil>)
        \<or> decideTargetYearCount ycs B = ?n"
    using a ord by (auto simp: decideTargetYearCount_def Let_def)
  show "0 < decideTargetYearCount ycs B"
    using a by (auto simp: decideTargetYearCount_def Let_def)
next
  assume nn: "\<forall>s\<in>set ycs. 0 \<le> count s"
  have avg: "0 \<le> js_round (averageCount ycs)"
    by (intro js_round_nonneg averageCount_nonneg nn)
  show "0 \<le> decideTargetYearCount ycs B"
    using avg by (auto simp: decideTargetYearCount_def Let_def)
qed

theorem decideTargetYearCount_bounds_witness:
  "[\<lparr>year = 2023, count = 10\<rparr>, \<lparr>year = 2024, count = 3\<rparr>] \<noteq> []
   \<and> 0 < lastYearCountOf [\<lparr>year = 2023, count = 10\<rparr>, \<lparr>year = 2024, count = 3\<rparr>] 2024
   \<and> list_all (\<lambda>s. 0 \<le> count s) [\<lparr>year = 2023, count = 10\<rparr>, \<lparr>year = 2024, count = 3\<rparr>]
   \<and> \<lfloor>of_int (lastYearCountOf [\<lparr>year = 2023, count = 10\<rparr>, \<lparr>year = 2024, count = 3\<rparr>] 2024)
          * (85 / 100 :: real)\<rfloor>
        \<le> decideTargetYearCount [\<lparr>year = 2023, count = 10\<rparr>, \<lparr>year = 2024, count = 3\<rparr>] 2024
   \<and> decideTargetYearCount [\<lparr>year = 2023, count = 10\<rparr>, \<lparr>year = 2024, count = 3\<rparr>] 2024 = 4"
  using decideTargetYearCount_bounds
    [of "[\<lparr>year = 2023, count = 10\<rparr>, \<lparr>year = 2024, count = 3\<rparr>]" 2024]
  by (simp add: decideTargetYearCount_def lastYearCountOf_def averageCount_def js_round_def Let_def)

section \<open>Monthly targets: the counts sum to the target\<close>

lemma sum_list_update_int:
  "i < length xs \<Longrightarrow> sum_list (xs[i := v]) = sum_list xs - xs ! i + (v::int)"
proof (induction xs arbitrary: i)
  case Nil
  then show ?case by simp
next
  case (Cons x xs)
  then show ?case by (cases i) auto
qed

lemma redistribute_up:
  assumes "length ms = 12" "0 \<le> diff" "nat diff + idx \<le> 36"
  shows "\<exists>ms'. redistribute (map Some ms) diff idx = map Some ms'
           \<and> length ms' = 12 \<and> sum_list ms' = sum_list ms + diff"
  using assms
proof (induction "nat diff" arbitrary: ms diff idx)
  case 0
  then have "diff = 0" by simp
  then show ?case
    using "0.prems" by (subst redistribute.simps) simp
next
  case (Suc n)
  let ?i = "idx mod 12"
  let ?ms = "ms[?i := ms ! ?i + 1]"
  have pos: "0 < diff" and lt: "idx < 36"
    using Suc.hyps(2) Suc.prems by linarith+
  have i: "?i < length ms"
    using Suc.prems by simp
  have step: "redistribute (map Some ms) diff idx = redistribute (map Some ?ms) (diff - 1) (idx + 1)"
    using pos lt i
    by (subst redistribute.simps) (simp add: arrGet_def arrSet_def Let_def map_update)
  have "\<exists>ms'. redistribute (map Some ?ms) (diff - 1) (idx + 1) = map Some ms'
           \<and> length ms' = 12 \<and> sum_list ms' = sum_list ?ms + (diff - 1)"
    using Suc.hyps(2) Suc.prems pos by (intro Suc.hyps(1)) auto
  then show ?case
    using step i by (auto simp: sum_list_update_int)
qed

lemma redistribute_down:
  assumes "length ms = 12" "diff \<le> 0" "idx \<le> 12" "nat (- diff) \<le> positivesFrom ms idx"
  shows "\<exists>ms'. redistribute (map Some ms) diff idx = map Some ms'
           \<and> length ms' = 12 \<and> sum_list ms' = sum_list ms + diff"
  using assms
proof (induction "12 - idx" arbitrary: ms diff idx)
  case 0
  then have "idx = 12" by simp
  then have "diff = 0"
    using "0.prems" by (simp add: positivesFrom_def)
  then show ?case
    using "0.prems" by (subst redistribute.simps) simp
next
  case (Suc n)
  have lt: "idx < 12"
    using Suc.hyps(2) by simp
  then have imod: "idx mod 12 = idx" and i: "idx < length ms"
    using Suc.prems by simp_all
  have upt: "[idx..<12] = idx # [Suc idx..<12]"
    using lt by (simp add: upt_conv_Cons)
  show ?case
  proof (cases "diff = 0")
    case True
    then show ?thesis
      using Suc.prems by (subst redistribute.simps) simp
  next
    case False
    then have neg: "diff < 0"
      using Suc.prems by simp
    show ?thesis
    proof (cases "0 < ms ! idx")
      case True
      let ?ms = "ms[idx := ms ! idx - 1]"
      have step: "redistribute (map Some ms) diff idx
                    = redistribute (map Some ?ms) (diff + 1) (idx + 1)"
        using neg lt i True imod
        by (subst redistribute.simps) (simp add: arrGet_def arrSet_def Let_def map_update)
      have same: "positivesFrom ?ms (idx + 1) = positivesFrom ms (idx + 1)"
        unfolding positivesFrom_def by (intro arg_cong[where f = length] filter_cong) auto
      have cnt: "positivesFrom ms idx = Suc (positivesFrom ms (idx + 1))"
        using True by (simp add: positivesFrom_def upt)
      have "\<exists>ms'. redistribute (map Some ?ms) (diff + 1) (idx + 1) = map Some ms'
               \<and> length ms' = 12 \<and> sum_list ms' = sum_list ?ms + (diff + 1)"
        using Suc.hyps(2) Suc.prems neg lt same cnt by (intro Suc.hyps(1)) auto
      then show ?thesis
        using step i by (auto simp: sum_list_update_int)
    next
      case False
      have step: "redistribute (map Some ms) diff idx = redistribute (map Some ms) diff (idx + 1)"
        using neg lt i False imod
        by (subst redistribute.simps) (simp add: arrGet_def Let_def)
      have cnt: "positivesFrom ms idx = positivesFrom ms (idx + 1)"
        using False by (simp add: positivesFrom_def upt)
      have "\<exists>ms'. redistribute (map Some ms) diff (idx + 1) = map Some ms'
               \<and> length ms' = 12 \<and> sum_list ms' = sum_list ms + diff"
        using Suc.hyps(2) Suc.prems lt cnt by (intro Suc.hyps(1)) auto
      then show ?thesis
        using step by auto
    qed
  qed
qed


lemma js_round_excess:
  assumes "0 \<le> r"
  shows "of_int (js_round r) - r \<le> (if 0 < js_round r then 1 / 2 else 0)"
proof (cases "0 < js_round r")
  case True
  have "of_int (js_round r) \<le> r + 1 / 2"
    unfolding js_round_def by (rule of_int_floor_le)
  then show ?thesis
    using True by simp
next
  case False
  moreover have "0 \<le> js_round r"
    using assms by (simp add: js_round_def)
  ultimately have "js_round r = 0" by simp
  then show ?thesis
    using assms by simp
qed

lemma js_round_deficit: "r - of_int (js_round r) \<le> 1 / 2"
proof -
  have "r + 1 / 2 < of_int (js_round r) + 1"
    unfolding js_round_def using floor_correct[of "r + 1 / 2"] by simp
  then show ?thesis
    by simp
qed

lemma rounded_sum_excess:
  assumes "\<forall>r\<in>set rs. 0 \<le> r"
  shows "of_int (sum_list (map js_round rs)) - sum_list rs
           \<le> of_nat (length (filter (\<lambda>v. 0 < v) (map js_round rs))) / 2"
  using assms
proof (induction rs)
  case Nil
  then show ?case by simp
next
  case (Cons r rs)
  have "of_int (js_round r) - r \<le> (if 0 < js_round r then 1 / 2 else 0)"
    using Cons.prems by (intro js_round_excess) simp
  moreover have "of_int (sum_list (map js_round rs)) - sum_list rs
           \<le> of_nat (length (filter (\<lambda>v. 0 < v) (map js_round rs))) / 2"
    using Cons by simp
  ultimately show ?case
    by (simp add: field_simps split: if_splits)
qed

lemma rounded_sum_deficit:
  "sum_list rs - of_int (sum_list (map js_round rs)) \<le> of_nat (length rs) / 2"
proof (induction rs)
  case Nil
  then show ?case by simp
next
  case (Cons r rs)
  then show ?case
    using js_round_deficit[of r] by (simp add: field_simps)
qed

lemma positivesFrom_0:
  assumes "length ms = 12"
  shows "positivesFrom ms 0 = length (filter (\<lambda>v. 0 < v) ms)"
proof -
  have "filter (\<lambda>v. 0 < v) (map ((!) ms) [0..<length ms])
          = map ((!) ms) (filter ((\<lambda>v. 0 < v) \<circ> (!) ms) [0..<length ms])"
    by (rule filter_map)
  then have "length (filter (\<lambda>v. 0 < v) ms) = length (filter (\<lambda>i. 0 < ms ! i) [0..<length ms])"
    by (simp add: map_nth comp_def)
  then show ?thesis
    using assms by (simp add: positivesFrom_def)
qed

lemma scaled_sum: "sum_list (map (\<lambda>s. s * c) xs) = sum_list xs * (c::real)"
  by (induction xs) (simp_all add: algebra_simps)

text \<open>
  Claim C2. For a non-negative target and twelve non-negative shares that sum to 1, the
  twelve monthly counts are integers and sum to the target.
\<close>

theorem makeMonthlyTargets_sum:
  assumes "0 \<le> T" and "length shares = 12" and "\<forall>s\<in>set shares. 0 \<le> s"
    and "sum_list shares = 1"
  shows "\<exists>ms. makeMonthlyTargets T shares = map Some ms \<and> length ms = 12 \<and> sum_list ms = T"
proof (cases "T = 0")
  case True
  then have "makeMonthlyTargets T shares = map Some (replicate 12 0)"
    by (simp add: makeMonthlyTargets_def)
  moreover have "sum_list (replicate 12 (0::int)) = 0"
    by (simp add: sum_list_replicate)
  ultimately show ?thesis
    using True by (intro exI[of _ "replicate 12 0"]) simp
next
  case False
  then have pos: "0 < T"
    using assms(1) by simp
  let ?raw = "map (\<lambda>s. s * of_int T) shares"
  let ?ms = "map js_round ?raw"
  let ?diff = "T - sum_list ?ms"
  have "\<not> T \<le> 0"
    using pos by simp
  then have unfold: "makeMonthlyTargets T shares = redistribute (map Some ?ms) ?diff 0"
    unfolding makeMonthlyTargets_def Let_def by (rule if_not_P)
  have len: "length ?ms = 12"
    using assms(2) by simp
  have total: "sum_list ?raw = of_int T"
    using assms(4) by (simp add: scaled_sum)
  have nonneg: "\<forall>r\<in>set ?raw. 0 \<le> r"
    using assms(3) pos by auto
  have "\<exists>ms'. redistribute (map Some ?ms) ?diff 0 = map Some ms'
           \<and> length ms' = 12 \<and> sum_list ms' = sum_list ?ms + ?diff"
  proof (cases "0 \<le> ?diff")
    case True
    have "sum_list ?raw - of_int (sum_list ?ms) \<le> of_nat (length ?raw) / 2"
      by (rule rounded_sum_deficit)
    then have "of_int ?diff \<le> (6::real)"
      using total assms(2) by simp
    then have "?diff \<le> 6"
      by linarith
    then show ?thesis
      using True len by (intro redistribute_up) auto
  next
    case False
    have "of_int (sum_list ?ms) - sum_list ?raw
            \<le> of_nat (length (filter (\<lambda>v. 0 < v) ?ms)) / 2"
      using nonneg by (rule rounded_sum_excess)
    then have "of_int (- ?diff) \<le> (of_nat (positivesFrom ?ms 0) :: real) / 2"
      using total len by (simp add: positivesFrom_0)
    then have "of_int (- ?diff) \<le> (of_nat (positivesFrom ?ms 0) :: real)"
      using False by linarith
    then have "- ?diff \<le> int (positivesFrom ?ms 0)"
      by linarith
    then have "nat (- ?diff) \<le> positivesFrom ?ms 0"
      by linarith
    then show ?thesis
      using False len by (intro redistribute_down) auto
  qed
  then show ?thesis
    using unfold by auto
qed

theorem makeMonthlyTargets_sum_witness:
  "(0::int) \<le> 5 \<and> length (replicate 12 (1 / 12 :: real)) = 12
   \<and> list_all (\<lambda>s. 0 \<le> s) (replicate 12 (1 / 12 :: real))
   \<and> sum_list (replicate 12 (1 / 12 :: real)) = 1
   \<and> (\<exists>ms. makeMonthlyTargets 5 (replicate 12 (1 / 12)) = map Some ms
         \<and> length ms = 12 \<and> sum_list ms = 5)"
proof -
  have s: "sum_list (replicate 12 (1 / 12 :: real)) = 1"
    by (simp add: sum_list_replicate)
  show ?thesis
    using makeMonthlyTargets_sum [of 5 "replicate 12 (1 / 12)"] s by (simp add: list_all_iff)
qed

lemma makeMonthlyTargets_example:
  "makeMonthlyTargets 5 (replicate 12 (1 / 12)) =
     map Some [1, 1, 1, 1, 1, 0, 0, 0, 0, 0, 0, 0]"
  by code_simp

section \<open>Dates of one month: number and range\<close>

lemma monthLength_bounds: "28 \<le> monthLength y m \<and> monthLength y m \<le> 31"
  by (simp add: monthLength_def)

lemma daysInMonth_bounds:
  assumes "daysInMonth yr month = Some days"
  shows "28 \<le> days \<and> days \<le> 31"
proof -
  obtain y where mk: "timeClip (prevDay (y + month div 12, month mod 12 + 1, 1)) = Some (fst (the (jsMakeDate yr month 0)), fst (snd (the (jsMakeDate yr month 0))), days)"
    using assms by (auto simp: daysInMonth_def jsMakeDate_def plusDays_def Let_def)
  let ?p = "prevDay (y + month div 12, month mod 12 + 1, 1)"
  have "snd (snd ?p) = days"
    using mk by (auto simp: timeClip_def split: if_splits)
  moreover have "28 \<le> snd (snd ?p) \<and> snd (snd ?p) \<le> 31"
    using monthLength_bounds[of "y + month div 12" "month mod 12"]
    by (simp add: prevDay_def)
  ultimately show ?thesis by simp
qed

lemma spacedDay_range:
  assumes "1 \<le> days"
  shows "1 \<le> spacedDay days cnt i \<and> spacedDay days cnt i \<le> days"
  using assms by (simp add: spacedDay_def Let_def)

text \<open>
  Claim C7. For a count \<open>c \<le> 0\<close> the result is empty. For \<open>c > 0\<close> it has exactly \<open>c\<close>
  entries, and (for a year and month a \<open>Date\<close> can represent, so that \<open>daysInMonth\<close> is a
  number) every entry is the string of a date of that month whose day lies between 1 and
  \<open>daysInMonth\<close>.
\<close>

theorem generateDatesForMonth_count_range:
  "(c \<le> 0 \<longrightarrow> generateDatesForMonth y m c = [])
   \<and> (0 < c \<longrightarrow> length (generateDatesForMonth y m c) = nat c)
   \<and> (0 < c \<and> daysInMonth y m = Some days \<longrightarrow>
        (\<forall>i < nat c. \<exists>d. 1 \<le> d \<and> d \<le> days
            \<and> generateDatesForMonth y m c ! i = ymdString y m d))"
proof (intro conjI impI allI)
  show "generateDatesForMonth y m c = []" if "c \<le> 0"
    using that by (simp add: generateDatesForMonth_def)
  show "length (generateDatesForMonth y m c) = nat c" if "0 < c"
    using that by (simp add: generateDatesForMonth_def split: option.split)
next
  fix i
  assume a: "0 < c \<and> daysInMonth y m = Some days" and i: "i < nat c"
  have "1 \<le> days"
    using a daysInMonth_bounds[of y m days] by simp
  then have "1 \<le> spacedDay days c i \<and> spacedDay days c i \<le> days"
    by (rule spacedDay_range)
  moreover have "generateDatesForMonth y m c ! i = ymdString y m (spacedDay days c i)"
    using a i by (simp add: generateDatesForMonth_def)
  ultimately show "\<exists>d. 1 \<le> d \<and> d \<le> days \<and> generateDatesForMonth y m c ! i = ymdString y m d"
    by blast
qed

theorem generateDatesForMonth_count_range_witness:
  "(0::int) < 3 \<and> daysInMonth 2025 1 = Some 31 \<and> (1::nat) < nat 3
   \<and> length (generateDatesForMonth 2025 1 3) = 3
   \<and> generateDatesForMonth 2025 1 0 = []
   \<and> (\<exists>d. 1 \<le> d \<and> d \<le> 31 \<and> generateDatesForMonth 2025 1 3 ! 1 = ymdString 2025 1 d)"
proof -
  have d: "daysInMonth 2025 1 = Some 31"
    by code_simp
  show ?thesis
    using generateDatesForMonth_count_range [of 3 2025 1 31]
      generateDatesForMonth_count_range [of 0 2025 1 31] d
    by simp
qed

section \<open>Greedy route: permutation and nearest-first order\<close>

lemma js_less_irrefl: "\<not> js_less a a"
  by (cases a) auto

lemma js_less_trans_neg:
  "\<not> js_less a b \<Longrightarrow> js_less c b \<Longrightarrow> \<not> js_less a c"
  by (cases a; cases b; cases c) auto

lemma scanNearest_spec:
  assumes "\<forall>j<length pre. \<not> js_less (distanceKm current (toPoint (pre ! j))) bd"
    and "bd = Infinity \<or> (b < length pre \<and> bd = distanceKm current (toPoint (pre ! b)))"
    and "r = scanNearest current cs (length pre) b bd"
  shows "\<forall>j<length (pre @ cs).
           \<not> js_less (distanceKm current (toPoint ((pre @ cs) ! j)))
                (distanceKm current (toPoint ((pre @ cs) ! r)))"
  using assms
proof (induction cs arbitrary: pre b bd)
  case Nil
  show ?case
  proof (intro allI impI)
    fix j assume j: "j < length (pre @ [])"
    have r: "r = b" using Nil.prems(3) by simp
    from Nil.prems(2) show "\<not> js_less (distanceKm current (toPoint ((pre @ []) ! j)))
                (distanceKm current (toPoint ((pre @ []) ! r)))"
    proof
      assume inf: "bd = Infinity"
      then have "\<not> js_less (distanceKm current (toPoint (pre ! j))) Infinity"
        using Nil.prems(1) j by simp
      then show ?thesis
        by (cases "distanceKm current (toPoint (pre ! j))") auto
    next
      assume "b < length pre \<and> bd = distanceKm current (toPoint (pre ! b))"
      then show ?thesis
        using Nil.prems(1) j r by simp
    qed
  qed
next
  case (Cons c cs)
  let ?d = "distanceKm current (toPoint c)"
  have app: "pre @ c # cs = (pre @ [c]) @ cs"
    by simp
  show ?case
  proof (cases "js_less ?d bd")
    case True
    have r: "r = scanNearest current cs (length (pre @ [c])) (length pre) ?d"
      using Cons.prems(3) True by (simp add: Let_def)
    have inv1: "\<forall>j<length (pre @ [c]). \<not> js_less (distanceKm current (toPoint ((pre @ [c]) ! j))) ?d"
      using Cons.prems(1) True
      by (auto simp: nth_append less_Suc_eq js_less_irrefl dest: js_less_trans_neg)
    have inv2: "?d = Infinity \<or> (length pre < length (pre @ [c])
                  \<and> ?d = distanceKm current (toPoint ((pre @ [c]) ! length pre)))"
      by simp
    show ?thesis
      unfolding app by (rule Cons.IH[OF inv1 inv2 r])
  next
    case False
    have r: "r = scanNearest current cs (length (pre @ [c])) b bd"
      using Cons.prems(3) False by (simp add: Let_def)
    have inv1: "\<forall>j<length (pre @ [c]). \<not> js_less (distanceKm current (toPoint ((pre @ [c]) ! j))) bd"
      using Cons.prems(1) False by (auto simp: nth_append less_Suc_eq)
    have inv2: "bd = Infinity \<or> (b < length (pre @ [c])
                  \<and> bd = distanceKm current (toPoint ((pre @ [c]) ! b)))"
      using Cons.prems(2) by (auto simp: nth_append)
    show ?thesis
      unfolding app by (rule Cons.IH[OF inv1 inv2 r])
  qed
qed

lemma nearestIndex_nearest:
  assumes "x \<in> set remaining"
  shows "\<not> js_less (haversineKm current (toPoint x))
           (haversineKm current (toPoint (remaining ! nearestIndex current remaining)))"
proof -
  obtain j where j: "j < length remaining" "remaining ! j = x"
    using assms by (auto simp: in_set_conv_nth)
  have "\<forall>j<length ([] @ remaining).
           \<not> js_less (distanceKm current (toPoint (([] @ remaining) ! j)))
                (distanceKm current (toPoint (([] @ remaining) ! nearestIndex current remaining)))"
    by (rule scanNearest_spec[where b = 0 and bd = Infinity]) (simp_all add: nearestIndex_def)
  then show ?thesis
    using j by (auto simp: distanceKm_def)
qed

lemma routeLoop_append:
  "routeLoop route remaining current = route @ routeLoop [] remaining current"
proof (induction "length remaining" arbitrary: route remaining current)
  case 0
  then show ?case
    by (subst (1 2) routeLoop.simps) simp
next
  case (Suc n)
  let ?b = "nearestIndex current remaining"
  let ?n = "remaining ! ?b"
  let ?r = "take ?b remaining @ drop (Suc ?b) remaining"
  have ne: "remaining \<noteq> []"
    using Suc.hyps(2) by auto
  have len: "n = length ?r"
    using Suc.hyps(2) nearestIndex_less[OF ne, of current] by simp
  have a: "routeLoop route remaining current = routeLoop (route @ [?n]) ?r (toPoint ?n)"
    using ne by (subst routeLoop.simps) (simp add: Let_def)
  have b: "routeLoop [] remaining current = routeLoop [?n] ?r (toPoint ?n)"
    using ne by (subst routeLoop.simps) (simp add: Let_def)
  have "routeLoop (route @ [?n]) ?r (toPoint ?n) = (route @ [?n]) @ routeLoop [] ?r (toPoint ?n)"
    by (rule Suc.hyps(1)[OF len])
  moreover have "routeLoop [?n] ?r (toPoint ?n) = [?n] @ routeLoop [] ?r (toPoint ?n)"
    by (rule Suc.hyps(1)[OF len])
  ultimately show ?case
    using a b by simp
qed

lemma routeLoop_step:
  assumes "remaining \<noteq> []"
  shows "routeLoop [] remaining current =
           remaining ! nearestIndex current remaining
           # routeLoop [] (take (nearestIndex current remaining) remaining
                           @ drop (Suc (nearestIndex current remaining)) remaining)
               (toPoint (remaining ! nearestIndex current remaining))"
proof -
  let ?b = "nearestIndex current remaining"
  have "routeLoop [] remaining current
          = routeLoop ([] @ [remaining ! ?b]) (take ?b remaining @ drop (Suc ?b) remaining)
              (toPoint (remaining ! ?b))"
    using assms by (subst routeLoop.simps) (simp add: Let_def)
  then show ?thesis
    by (subst (asm) routeLoop_append) simp
qed

lemma mset_remove_nth:
  "i < length xs \<Longrightarrow> mset xs = add_mset (xs ! i) (mset (take i xs @ drop (Suc i) xs))"
proof -
  assume i: "i < length xs"
  have "xs = take i xs @ xs ! i # drop (Suc i) xs"
    using i by (simp add: id_take_nth_drop)
  then have "mset xs = mset (take i xs @ xs ! i # drop (Suc i) xs)"
    by simp
  then show ?thesis
    by simp
qed

lemma routeLoop_greedy:
  "mset (routeLoop [] remaining current) = mset remaining
   \<and> nearestFirst current (routeLoop [] remaining current)"
proof (induction "length remaining" arbitrary: remaining current)
  case 0
  then show ?case
    by (subst (1 2) routeLoop.simps) simp
next
  case (Suc n)
  let ?b = "nearestIndex current remaining"
  let ?n = "remaining ! ?b"
  let ?r = "take ?b remaining @ drop (Suc ?b) remaining"
  have ne: "remaining \<noteq> []"
    using Suc.hyps(2) by auto
  have b: "?b < length remaining"
    using ne by (rule nearestIndex_less)
  have len: "n = length ?r"
    using Suc.hyps(2) b by simp
  have ih: "mset (routeLoop [] ?r (toPoint ?n)) = mset ?r
              \<and> nearestFirst (toPoint ?n) (routeLoop [] ?r (toPoint ?n))"
    by (rule Suc.hyps(1)[OF len])
  have step: "routeLoop [] remaining current = ?n # routeLoop [] ?r (toPoint ?n)"
    using ne by (rule routeLoop_step)
  have ms: "mset (routeLoop [] remaining current) = mset remaining"
    using step ih mset_remove_nth[OF b] by simp
  have "\<forall>x\<in>set (?n # routeLoop [] ?r (toPoint ?n)).
          \<not> js_less (haversineKm current (toPoint x)) (haversineKm current (toPoint ?n))"
  proof
    fix x assume "x \<in> set (?n # routeLoop [] ?r (toPoint ?n))"
    then have "x \<in># mset (routeLoop [] remaining current)"
      using step by simp
    then have "x \<in> set remaining"
      using ms by simp
    then show "\<not> js_less (haversineKm current (toPoint x)) (haversineKm current (toPoint ?n))"
      by (rule nearestIndex_nearest)
  qed
  then show ?case
    using ms step ih by simp
qed

lemma cos_quarter_le:
  assumes "0 \<le> x" "x \<le> pi / 4"
  shows "sqrt 2 / 2 \<le> cos x"
proof -
  have "cos (pi / 4) \<le> cos x"
    using assms by (intro cos_monotone_0_pi_le) auto
  then show ?thesis
    by (simp add: cos_45)
qed

lemma sin_five_ge:
  assumes "0 < a" "a \<le> pi / 40"
  shows "2 * sin a \<le> sin (5 * a)"
proof -
  have pi0: "0 < pi" by simp
  have mono: "sin (4 * a) \<le> sin (5 * a)"
    using assms pi0 by (intro sin_monotone_2pi_le) auto
  have dbl: "sin (4 * a) = 4 * sin a * (cos a * cos (2 * a))"
    using sin_double[of "2 * a"] sin_double[of a] by simp
  have ca: "sqrt 2 / 2 \<le> cos a"
    using assms by (intro cos_quarter_le) auto
  have c2a: "sqrt 2 / 2 \<le> cos (2 * a)"
    using assms by (intro cos_quarter_le) auto
  have sa: "0 \<le> 4 * sin a"
    using sin_gt_zero[of a] assms pi0 by auto
  have s2: "0 \<le> sqrt 2 / 2" by simp
  have ca0: "0 \<le> cos a" using ca s2 by linarith
  have "sqrt 2 / 2 * (sqrt 2 / 2) \<le> cos a * cos (2 * a)"
    by (rule mult_mono[OF ca c2a ca0 s2])
  then have half: "1 / 2 \<le> cos a * cos (2 * a)"
    by simp
  have "4 * sin a * (1 / 2) \<le> 4 * sin a * (cos a * cos (2 * a))"
    by (rule mult_left_mono[OF half sa])
  then have "2 * sin a \<le> sin (4 * a)"
    using dbl by simp
  then show ?thesis
    using mono by linarith
qed

lemma haversine_terms_less:
  "(sin (pi / 36000))\<^sup>2 < cos (34 * pi / 180) * cos (34 * pi / 180) * (sin (pi / 7200))\<^sup>2"
proof -
  let ?a = "pi / 36000"
  have pi0: "0 < pi" by simp
  have sa: "0 < sin ?a"
    using pi0 by (intro sin_gt_zero) auto
  have s5: "2 * sin ?a \<le> sin (5 * ?a)"
    using pi0 by (intro sin_five_ge) auto
  have five: "5 * ?a = pi / 7200"
    by simp
  have c: "sqrt 2 / 2 \<le> cos (34 * pi / 180)"
    using pi0 by (intro cos_quarter_le) auto
  have s2: "0 \<le> sqrt 2 / 2" by simp
  have c0: "0 \<le> cos (34 * pi / 180)" using c s2 by linarith
  have sa0: "0 \<le> 2 * sin ?a" using sa by simp
  have "sqrt 2 / 2 * (2 * sin ?a) \<le> cos (34 * pi / 180) * sin (5 * ?a)"
    by (rule mult_mono[OF c s5 c0 sa0])
  moreover have "sin ?a < sqrt 2 * sin ?a"
    using sa by simp
  ultimately have lt: "sin ?a < cos (34 * pi / 180) * sin (pi / 7200)"
    using five by simp
  have "(sin ?a)\<^sup>2 < (cos (34 * pi / 180) * sin (pi / 7200))\<^sup>2"
    using lt sa by (intro power_strict_mono) auto
  then show ?thesis
    by (simp add: power2_eq_square mult_ac)
qed

lemma example_distances:
  "\<exists>a b. haversineKm depot0 (toPoint stopA) = Num a \<and> haversineKm depot0 (toPoint stopB) = Num b
     \<and> a < b"
proof -
  let ?hA = "(sin (pi / 36000))\<^sup>2"
  let ?hB = "cos (34 * pi / 180) * cos (34 * pi / 180) * (sin (pi / 7200))\<^sup>2"
  have lt: "?hA < ?hB"
    by (rule haversine_terms_less)
  have a0: "0 \<le> ?hA"
    by simp
  have b1: "?hB \<le> 1"
  proof -
    have "(cos (34 * pi / 180))\<^sup>2 \<le> 1" "(sin (pi / 7200))\<^sup>2 \<le> 1"
      by (simp_all add: abs_square_le_1)
    then have "(cos (34 * pi / 180))\<^sup>2 * (sin (pi / 7200))\<^sup>2 \<le> 1 * 1"
      by (intro mult_mono) auto
    then show ?thesis
      by (simp add: power2_eq_square)
  qed
  have sq1: "sqrt ?hA < sqrt ?hB"
    using lt by (rule real_sqrt_less_mono)
  have sq2: "sqrt ?hB \<le> 1"
    using real_sqrt_le_mono[OF b1] by (simp only: real_sqrt_one)
  have sq3: "0 \<le> sqrt ?hA"
    using a0 by (rule real_sqrt_ge_zero)
  note sq = sq1 sq2 sq3
  have as: "arcsin (min 1 (sqrt ?hA)) < arcsin (min 1 (sqrt ?hB))"
    using sq by (subst arcsin_less_mono) auto
  have hA: "haversineKm depot0 (toPoint stopA) = Num (2 * 6371 * arcsin (min 1 (sqrt ?hA)))"
    by (simp add: haversineKm_def depot0_def stopA_def toPoint_def toRad_def Let_def)
  have b0: "\<not> ?hB < 0"
    using lt a0 by linarith
  have hB: "haversineKm depot0 (toPoint stopB) = Num (2 * 6371 * arcsin (min 1 (sqrt ?hB)))"
    using b0 by (simp add: haversineKm_def depot0_def stopB_def toPoint_def toRad_def Let_def)
  show ?thesis
    using hA hB as by simp
qed

lemma buildSimpleRoute_example:
  "buildSimpleRoute depot0 [stopA, stopB] = [stopA, stopB]
   \<and> buildSimpleRoute depot0 [stopB, stopA] = [stopA, stopB]"
proof -
  obtain a b where d: "haversineKm depot0 (toPoint stopA) = Num a"
      "haversineKm depot0 (toPoint stopB) = Num b" "a < b"
    using example_distances by blast
  have i1: "nearestIndex depot0 [stopA, stopB] = 0"
    using d by (simp add: nearestIndex_def distanceKm_def Let_def)
  have i2: "nearestIndex depot0 [stopB, stopA] = 1"
    using d by (simp add: nearestIndex_def distanceKm_def Let_def)
  have one: "routeLoop [] [x] p = [x]" for x p
    by (simp add: routeLoop_step nearestIndex_def Let_def routeLoop.simps[of _ "[]"])
  show ?thesis
    using i1 i2 by (simp add: buildSimpleRoute_def routeLoop_step one)
qed

subsection \<open>The distance is the great-circle distance\<close>

lemma cos_latitude_nonneg:
  assumes "validLatitude p"
  shows "0 \<le> cos (lat p * pi / 180)"
proof -
  have lo: "pi * (- 90) \<le> pi * lat p"
    using assms by (intro mult_left_mono) (simp_all add: validLatitude_def)
  have hi: "pi * lat p \<le> pi * 90"
    using assms by (intro mult_left_mono) (simp_all add: validLatitude_def)
  have "- (pi / 2) \<le> lat p * pi / 180" "lat p * pi / 180 \<le> pi / 2"
    using lo hi by (simp_all add: field_simps)
  then show ?thesis
    by (rule cos_ge_zero)
qed

lemma haversine_term_bounds:
  fixes p q l :: real
  assumes "0 \<le> cos p" "0 \<le> cos q"
  shows "0 \<le> (sin ((q - p) / 2))\<^sup>2 + cos p * cos q * (sin l)\<^sup>2"
    and "(sin ((q - p) / 2))\<^sup>2 + cos p * cos q * (sin l)\<^sup>2 \<le> 1"
proof -
  have cc: "0 \<le> cos p * cos q"
    using assms by simp
  then show "0 \<le> (sin ((q - p) / 2))\<^sup>2 + cos p * cos q * (sin l)\<^sup>2"
    by simp
  define A where "A = cos p * cos q"
  define S where "S = (sin ((q - p) / 2))\<^sup>2"
  define T where "T = A * (sin l)\<^sup>2"
  have "(sin l)\<^sup>2 \<le> 1"
    using sin_cos_squared_add[of l] zero_le_power2[of "cos l"] by linarith
  then have "A * (sin l)\<^sup>2 \<le> A * 1"
    using cc unfolding A_def by (rule mult_left_mono)
  then have t: "T \<le> A"
    unfolding T_def by simp
  have a: "A = (cos (p - q) + cos (p + q)) / 2"
    unfolding A_def by (rule cos_times_cos)
  have c2: "cos (p + q) \<le> 1"
    by simp
  have c1: "cos (p - q) = 1 - 2 * S"
  proof -
    have "cos (p - q) = cos (q - p)"
      using cos_minus[of "q - p"] by simp
    moreover have "cos (2 * ((q - p) / 2)) = cos (q - p)"
      by (rule arg_cong[of _ _ cos]) simp
    ultimately have "cos (p - q) = cos (2 * ((q - p) / 2))"
      by (rule trans[OF _ sym])
    then show ?thesis
      unfolding S_def by (simp only: cos_double_sin)
  qed
  have "A = (1 - 2 * S + cos (p + q)) / 2"
    unfolding a c1 ..
  also have "\<dots> \<le> (1 - 2 * S + 1) / 2"
    using c2 by simp
  finally have "A \<le> 1 - S"
    by simp
  then have "S + T \<le> 1"
    using t by simp
  then show "(sin ((q - p) / 2))\<^sup>2 + cos p * cos q * (sin l)\<^sup>2 \<le> 1"
    unfolding S_def T_def A_def .
qed

lemma haversineKm_greatCircleKm:
  assumes "validLatitude a" "validLatitude b"
  shows "haversineKm a b = Num (greatCircleKm a b)"
proof -
  define h where "h = (sin ((lat b - lat a) * pi / 180 / 2))\<^sup>2
                        + cos (lat a * pi / 180) * cos (lat b * pi / 180)
                          * (sin ((lng b - lng a) * pi / 180 / 2))\<^sup>2"
  have arg: "(lat b - lat a) * pi / 180 / 2 = (lat b * pi / 180 - lat a * pi / 180) / 2"
    by (simp add: field_simps)
  have b: "0 \<le> h" "h \<le> 1"
    unfolding h_def arg
    using cos_latitude_nonneg[OF assms(1)] cos_latitude_nonneg[OF assms(2)]
    by (rule haversine_term_bounds)+
  then have "sqrt h \<le> 1"
    by simp
  then have m: "min 1 (sqrt h) = sqrt h"
    by simp
  have "haversineKm a b = (if h < 0 then NaN else Num (2 * 6371 * arcsin (min 1 (sqrt h))))"
    unfolding haversineKm_def toRad_def Let_def h_def by simp
  then show ?thesis
    using b(1) unfolding m greatCircleKm_def h_def[symmetric] by simp
qed

lemma nearestFirst_minimumDistanceOrder:
  assumes "validLatitude current" "\<forall>c\<in>set route. validLatitude (toPoint c)"
    and "nearestFirst current route"
  shows "minimumDistanceOrder current route"
  using assms
proof (induction route arbitrary: current)
  case Nil
  then show ?case by simp
next
  case (Cons c cs)
  have vc: "validLatitude (toPoint c)"
    using Cons.prems(2) by simp
  have "greatCircleKm current (toPoint c) \<le> greatCircleKm current (toPoint x)"
    if "x \<in> set (c # cs)" for x
  proof -
    have "validLatitude (toPoint x)"
      using Cons.prems(2) that by blast
    then have "haversineKm current (toPoint x) = Num (greatCircleKm current (toPoint x))"
      using Cons.prems(1) by (intro haversineKm_greatCircleKm)
    moreover have "haversineKm current (toPoint c) = Num (greatCircleKm current (toPoint c))"
      using Cons.prems(1) vc by (intro haversineKm_greatCircleKm)
    moreover have "\<not> js_less (haversineKm current (toPoint x)) (haversineKm current (toPoint c))"
      using Cons.prems(3) that by auto
    ultimately show ?thesis
      by simp
  qed
  moreover have "minimumDistanceOrder (toPoint c) cs"
    using Cons.prems(2,3) vc by (intro Cons.IH) auto
  ultimately show ?case
    by simp
qed

lemma example_latitudes:
  "validLatitude depot0 \<and> validLatitude (toPoint stopA) \<and> validLatitude (toPoint stopB)"
  by (simp add: validLatitude_def depot0_def stopA_def stopB_def toPoint_def)

text \<open>
  Claim C9. The route is a permutation of the candidates. Each of its stops is one that no
  stop from it on is strictly nearer (by \<open>haversineKm\<close>, in JavaScript's comparison) to the
  current position than, the position starting at the depot and moving to each chosen
  stop; for latitudes between -90 and 90 degrees that is an order of minimum great-circle
  distance by the haversine formula with an Earth radius of 6371 km. For the depot
  (34.0, 132.0) and the stops A (34.01, 132.00) and B (34.00, 132.05) the route is [A, B],
  whichever the order of the input, A being the nearer to the depot.
\<close>

theorem buildSimpleRoute_nearest_neighbour:
  "mset (buildSimpleRoute depot cs) = mset cs
   \<and> nearestFirst depot (buildSimpleRoute depot cs)
   \<and> (validLatitude depot \<and> list_all (\<lambda>c. validLatitude (toPoint c)) cs
        \<longrightarrow> minimumDistanceOrder depot (buildSimpleRoute depot cs))
   \<and> buildSimpleRoute depot0 [stopA, stopB] = [stopA, stopB]
   \<and> buildSimpleRoute depot0 [stopB, stopA] = [stopA, stopB]
   \<and> greatCircleKm depot0 (toPoint stopA) < greatCircleKm depot0 (toPoint stopB)"
proof (intro conjI impI)
  have g: "mset (buildSimpleRoute depot cs) = mset cs
           \<and> nearestFirst depot (buildSimpleRoute depot cs)"
    using routeLoop_greedy[of cs depot] by (simp add: buildSimpleRoute_def)
  show "mset (buildSimpleRoute depot cs) = mset cs"
    using g by (rule conjunct1)
  show "nearestFirst depot (buildSimpleRoute depot cs)"
    using g by (rule conjunct2)
  show "minimumDistanceOrder depot (buildSimpleRoute depot cs)"
    if v: "validLatitude depot \<and> list_all (\<lambda>c. validLatitude (toPoint c)) cs"
  proof -
    have "set (buildSimpleRoute depot cs) = set cs"
      using g[THEN conjunct1] by (rule mset_eq_setD)
    then have "\<forall>c\<in>set (buildSimpleRoute depot cs). validLatitude (toPoint c)"
      using v by (simp add: list_all_iff)
    then show ?thesis
      using v g by (intro nearestFirst_minimumDistanceOrder) auto
  qed
  show "buildSimpleRoute depot0 [stopA, stopB] = [stopA, stopB]"
    using buildSimpleRoute_example by (rule conjunct1)
  show "buildSimpleRoute depot0 [stopB, stopA] = [stopA, stopB]"
    using buildSimpleRoute_example by (rule conjunct2)
  show "greatCircleKm depot0 (toPoint stopA) < greatCircleKm depot0 (toPoint stopB)"
  proof -
    obtain a b where d: "haversineKm depot0 (toPoint stopA) = Num a"
      "haversineKm depot0 (toPoint stopB) = Num b" "a < b"
      using example_distances by blast
    then show ?thesis
      using example_latitudes by (simp add: haversineKm_greatCircleKm)
  qed
qed

theorem buildSimpleRoute_nearest_neighbour_witness:
  "validLatitude depot0 \<and> list_all (\<lambda>c. validLatitude (toPoint c)) [stopB, stopA]
   \<and> mset [stopA, stopB] = mset [stopB, stopA]
   \<and> buildSimpleRoute depot0 [stopB, stopA] = [stopA, stopB]
   \<and> minimumDistanceOrder depot0 [stopA, stopB]"
proof -
  note th = buildSimpleRoute_nearest_neighbour [of depot0 "[stopB, stopA]"]
  have r: "buildSimpleRoute depot0 [stopB, stopA] = [stopA, stopB]"
    using th by simp
  have v: "validLatitude depot0 \<and> list_all (\<lambda>c. validLatitude (toPoint c)) [stopB, stopA]"
    using example_latitudes by simp
  have "minimumDistanceOrder depot0 (buildSimpleRoute depot0 [stopB, stopA])"
    using th[THEN conjunct2, THEN conjunct2, THEN conjunct1] v by (rule mp)
  then have "minimumDistanceOrder depot0 [stopA, stopB]"
    by (simp only: r)
  then show ?thesis
    using v r by simp
qed

section \<open>Digits, date strings and the calendar\<close>

subsection \<open>Decimal digits\<close>

lemma digit_cases:
  "d < 10 \<Longrightarrow> d = 0 \<or> d = 1 \<or> d = 2 \<or> d = 3 \<or> d = 4 \<or> d = 5 \<or> d = 6 \<or> d = 7 \<or> d = 8 \<or> d = (9::nat)"
  by arith

lemma of_char_digitChar:
  assumes "d < 10"
  shows "(of_char (digitChar d) :: nat) = 48 + d"
  using digit_cases[OF assms] by (auto simp: digitChar_def)

lemma digitVal_digitChar: "d < 10 \<Longrightarrow> digitVal (digitChar d) = d"
  by (simp add: digitVal_def of_char_digitChar)

lemma isDigit_digitChar: "d < 10 \<Longrightarrow> isDigit (digitChar d)"
  using digit_cases[of d] by (auto simp: isDigit_def digitChar_def)

lemma digitChar_less_iff:
  assumes "d < 10" "e < 10"
  shows "digitChar d < digitChar e \<longleftrightarrow> d < e"
  using of_char_digitChar[OF assms(1)] of_char_digitChar[OF assms(2)]
  by (simp add: less_char_def)

lemma digitChar_eq_iff:
  assumes "d < 10" "e < 10"
  shows "digitChar d = digitChar e \<longleftrightarrow> d = e"
proof
  assume "digitChar d = digitChar e"
  then have "(of_char (digitChar d) :: nat) = of_char (digitChar e)"
    by simp
  then show "d = e"
    using of_char_digitChar[OF assms(1)] of_char_digitChar[OF assms(2)] by simp
qed simp

lemma digitChar_not_sign: "d < 10 \<Longrightarrow> digitChar d \<noteq> CHR ''-'' \<and> digitChar d \<noteq> CHR ''+'' \<and> digitChar d \<noteq> CHR ''#''"
  using digit_cases[of d] by (auto simp: digitChar_def)

lemma length_fixedDigits [simp]: "length (fixedDigits w n) = w"
  by (induction w arbitrary: n) auto

lemma length_natString_le:
  "n < 10 ^ w \<Longrightarrow> 0 < w \<Longrightarrow> length (natString n) \<le> w"
proof (induction n arbitrary: w rule: natString.induct)
  case (1 n)
  show ?case
  proof (cases "n < 10")
    case True
    then show ?thesis
      using "1.prems" by (subst natString.simps) simp
  next
    case False
    obtain v where w: "w = Suc v"
      using "1.prems"(2) by (cases w) auto
    have v: "0 < v"
      using False "1.prems"(1) w by (cases v) auto
    have "n div 10 < 10 ^ v"
      using "1.prems"(1) w by (simp add: less_mult_imp_div_less mult.commute)
    then have "length (natString (n div 10)) \<le> v"
      using False v by (intro "1.IH") auto
    then show ?thesis
      using False w by (subst natString.simps) simp
  qed
qed

lemma padStart_natString:
  "n < 10 ^ w \<Longrightarrow> 0 < w \<Longrightarrow> padStart w (natString n) = fixedDigits w n"
proof (induction w arbitrary: n)
  case 0
  then show ?case by simp
next
  case (Suc w)
  show ?case
  proof (cases "n < 10")
    case True
    have z: "fixedDigits k 0 = replicate k (digitChar 0)" for k
      by (induction k) (auto simp: replicate_append_same)
    have "n div 10 = 0" "n mod 10 = n"
      using True by auto
    then show ?thesis
      using True by (subst natString.simps) (simp add: padStart_def z digitChar_def)
  next
    case False
    then have w: "0 < w"
      using Suc.prems(1) by (cases w) auto
    have d: "n div 10 < 10 ^ w"
      using Suc.prems(1) by (simp add: less_mult_imp_div_less mult.commute)
    have ih: "padStart w (natString (n div 10)) = fixedDigits w (n div 10)"
      using d w by (rule Suc.IH)
    have len: "length (natString (n div 10)) \<le> w"
      using d w by (rule length_natString_le)
    have ns: "natString n = natString (n div 10) @ [digitChar (n mod 10)]"
      using False by (subst natString.simps) simp
    have "padStart (Suc w) (natString n)
            = padStart w (natString (n div 10)) @ [digitChar (n mod 10)]"
      using len by (simp add: ns padStart_def Suc_diff_le)
    then show ?thesis
      using ih by simp
  qed
qed

lemma digitsValue_snoc: "digitsValue (s @ [c]) = 10 * digitsValue s + digitVal c"
  by (simp add: digitsValue_def)

lemma digitsValue_fixedDigits: "n < 10 ^ w \<Longrightarrow> digitsValue (fixedDigits w n) = n"
proof (induction w arbitrary: n)
  case 0
  then show ?case by (simp add: digitsValue_def)
next
  case (Suc w)
  have "n div 10 < 10 ^ w"
    using Suc.prems by (simp add: less_mult_imp_div_less mult.commute)
  then have "digitsValue (fixedDigits w (n div 10)) = n div 10"
    by (rule Suc.IH)
  then show ?case
    by (simp add: digitsValue_snoc digitVal_digitChar)
qed

lemma fixedDigits_all_digits: "\<forall>c\<in>set (fixedDigits w n). isDigit c"
  by (induction w arbitrary: n) (auto simp: isDigit_digitChar)

subsection \<open>Lexicographic order of strings with a common layout\<close>

lemma less_append_same_length:
  fixes xs ys :: "'a::linorder list"
  assumes "length xs = length ys"
  shows "xs @ us < ys @ vs \<longleftrightarrow> xs < ys \<or> (xs = ys \<and> us < vs)"
  using assms by (induction xs ys rule: list_induct2) auto

lemma le_append_same_length:
  fixes xs ys :: "'a::linorder list"
  assumes "length xs = length ys"
  shows "xs @ us \<le> ys @ vs \<longleftrightarrow> xs < ys \<or> (xs = ys \<and> us \<le> vs)"
  using assms by (induction xs ys rule: list_induct2) auto

lemma lex_pair_less:
  fixes qa ra qb rb :: nat
  assumes "ra < 10" "rb < 10"
  shows "(qa < qb \<or> (qa = qb \<and> ra < rb)) \<longleftrightarrow> 10 * qa + ra < 10 * qb + rb"
  using assms by arith

lemma div_mod_less_iff:
  "(a div 10 < b div 10 \<or> (a div 10 = b div 10 \<and> a mod 10 < b mod 10)) \<longleftrightarrow> a < (b::nat)"
proof -
  have "(a div 10 < b div 10 \<or> (a div 10 = b div 10 \<and> a mod 10 < b mod 10))
          \<longleftrightarrow> 10 * (a div 10) + a mod 10 < 10 * (b div 10) + b mod 10"
    by (rule lex_pair_less) simp_all
  then show ?thesis
    by simp
qed

lemma fixedDigits_less_iff:
  "a < 10 ^ w \<Longrightarrow> b < 10 ^ w \<Longrightarrow> fixedDigits w a < fixedDigits w b \<longleftrightarrow> a < b"
proof (induction w arbitrary: a b)
  case 0
  then show ?case by simp
next
  case (Suc w)
  have a: "a div 10 < 10 ^ w" and b: "b div 10 < 10 ^ w"
    using Suc.prems by (simp_all add: less_mult_imp_div_less mult.commute)
  have ih: "fixedDigits w (a div 10) < fixedDigits w (b div 10) \<longleftrightarrow> a div 10 < b div 10"
    using a b by (rule Suc.IH)
  have eq: "fixedDigits w (a div 10) = fixedDigits w (b div 10) \<longleftrightarrow> a div 10 = b div 10"
    using digitsValue_fixedDigits[OF a] digitsValue_fixedDigits[OF b] by metis
  have len: "length (fixedDigits w (a div 10)) = length (fixedDigits w (b div 10))"
    by simp
  have "fixedDigits (Suc w) a < fixedDigits (Suc w) b \<longleftrightarrow>
          fixedDigits w (a div 10) < fixedDigits w (b div 10)
          \<or> (fixedDigits w (a div 10) = fixedDigits w (b div 10)
               \<and> [digitChar (a mod 10)] < [digitChar (b mod 10)])"
    using less_append_same_length[OF len] by simp
  also have "\<dots> \<longleftrightarrow> a div 10 < b div 10 \<or> (a div 10 = b div 10 \<and> a mod 10 < b mod 10)"
    by (simp add: ih eq digitChar_less_iff)
  also have "\<dots> \<longleftrightarrow> a < b"
    by (rule div_mod_less_iff)
  finally show ?case .
qed

lemma fixedDigits_eq_iff:
  "a < 10 ^ w \<Longrightarrow> b < 10 ^ w \<Longrightarrow> fixedDigits w a = fixedDigits w b \<longleftrightarrow> a = b"
  using digitsValue_fixedDigits[of a w] digitsValue_fixedDigits[of b w] by metis

subsection \<open>The calendar\<close>

lemma monthLength_ge: "28 \<le> monthLength y m"
  by (simp add: monthLength_def)

lemma monthLength_le: "monthLength y m \<le> 31"
  by (simp add: monthLength_def)

lemma validDate_nextDay: "validDate dt \<Longrightarrow> validDate (nextDay dt)"
proof -
  assume v: "validDate dt"
  obtain y m d where dt: "dt = (y, m, d)"
    by (cases dt) auto
  show ?thesis
    using v monthLength_ge[of y "m + 1"] monthLength_ge[of "y + 1" 1]
    by (auto simp: dt validDate_def nextDay_def)
qed

lemma validDate_prevDay: "validDate dt \<Longrightarrow> validDate (prevDay dt)"
proof -
  assume v: "validDate dt"
  obtain y m d where dt: "dt = (y, m, d)"
    by (cases dt) auto
  show ?thesis
    using v monthLength_ge[of y "m - 1"]
    by (auto simp: dt validDate_def prevDay_def monthLength_def)
qed

lemma less_nextDay: "dt < nextDay dt"
proof -
  obtain y m d where dt: "dt = (y, m, d)"
    by (cases dt) auto
  show ?thesis
    by (auto simp: dt nextDay_def)
qed

lemma validDate_funpow_nextDay: "validDate dt \<Longrightarrow> validDate ((nextDay ^^ n) dt)"
  by (induction n) (auto simp: validDate_nextDay)

lemma validDate_funpow_prevDay: "validDate dt \<Longrightarrow> validDate ((prevDay ^^ n) dt)"
  by (induction n) (auto simp: validDate_prevDay)

lemma validDate_plusDays: "validDate dt \<Longrightarrow> validDate (plusDays dt n)"
  by (simp add: plusDays_def validDate_funpow_nextDay validDate_funpow_prevDay)

lemma plusDays_0 [simp]: "plusDays dt 0 = dt"
  by (simp add: plusDays_def)

lemma plusDays_add:
  assumes "0 \<le> m" "0 \<le> n"
  shows "plusDays (plusDays dt m) n = plusDays dt (m + n)"
proof -
  have "nat (m + n) = nat n + nat m"
    using assms by simp
  then show ?thesis
    using assms by (simp add: plusDays_def funpow_add)
qed

lemma funpow_nextDay_less: "0 < n \<Longrightarrow> dt < (nextDay ^^ n) dt"
proof (induction n)
  case 0
  then show ?case by simp
next
  case (Suc n)
  show ?case
  proof (cases "n = 0")
    case True
    then show ?thesis by (simp add: less_nextDay)
  next
    case False
    then have "dt < (nextDay ^^ n) dt"
      using Suc.IH by simp
    also have "\<dots> < nextDay ((nextDay ^^ n) dt)"
      by (rule less_nextDay)
    finally show ?thesis by simp
  qed
qed

lemma plusDays_less: "0 < n \<Longrightarrow> dt < plusDays dt n"
  by (simp add: plusDays_def funpow_nextDay_less)

lemma plusDays_strict_mono:
  assumes "0 \<le> m" "m < n"
  shows "plusDays dt m < plusDays dt n"
proof -
  have "plusDays dt n = plusDays (plusDays dt m) (n - m)"
    using assms by (simp add: plusDays_add)
  then show ?thesis
    using assms plusDays_less[of "n - m" "plusDays dt m"] by simp
qed

lemma fst_mono_date: "(a::date) \<le> b \<Longrightarrow> fst a \<le> fst b"
  by (cases a; cases b) (auto simp: less_eq_prod_def)

subsection \<open>Four-digit dates and their strings\<close>

lemma timeClip_fourDigit: "fourDigitDate dt \<Longrightarrow> timeClip dt = Some dt"
  by (cases dt) (auto simp: fourDigitDate_def timeClip_def minDate_def maxDate_def)

lemma isoDate10_fixed:
  assumes "fourDigitDate (y, m, d)"
  shows "isoDate10 (y, m, d)
           = fixedDigits 4 (nat y) @ ''-'' @ fixedDigits 2 (nat m) @ ''-'' @ fixedDigits 2 (nat d)"
proof -
  have m: "1 \<le> m" "m \<le> 12" and d: "1 \<le> d" "d \<le> 31" and y: "0 \<le> y" "y \<le> 9999"
    using assms monthLength_le[of y m] by (auto simp: fourDigitDate_def validDate_def)
  have "nat y < 10 ^ 4" "nat m < 10 ^ 2" "nat d < 10 ^ 2"
    using m d y by auto
  then have "padStart 4 (natString (nat y)) = fixedDigits 4 (nat y)"
    "padStart 2 (natString (nat m)) = fixedDigits 2 (nat m)"
    "padStart 2 (natString (nat d)) = fixedDigits 2 (nat d)"
    by (simp_all add: padStart_natString)
  then show ?thesis
    using y by (simp add: isoDate10_def isoYear_def)
qed

lemma ISO_YMD_layout:
  assumes "length ys = 4" "length ms = 2" "length ds = 2"
    "\<forall>c\<in>set ys. isDigit c" "\<forall>c\<in>set ms. isDigit c" "\<forall>c\<in>set ds. isDigit c"
  shows "ISO_YMD (ys @ ''-'' @ ms @ ''-'' @ ds)"
proof -
  obtain y1 y2 y3 y4 where ys: "ys = [y1, y2, y3, y4]"
    using assms(1) by (auto simp: length_Suc_conv eval_nat_numeral)
  obtain m1 m2 where ms: "ms = [m1, m2]"
    using assms(2) by (auto simp: length_Suc_conv eval_nat_numeral)
  obtain d1 d2 where ds: "ds = [d1, d2]"
    using assms(3) by (auto simp: length_Suc_conv eval_nat_numeral)
  show ?thesis
    using assms(4-6) by (simp add: ys ms ds)
qed

lemma ISO_YMD_isoDate10:
  assumes "fourDigitDate dt"
  shows "ISO_YMD (isoDate10 dt)"
proof -
  obtain y m d where dt: "dt = (y, m, d)"
    by (cases dt) auto
  have "ISO_YMD (fixedDigits 4 (nat y) @ ''-'' @ fixedDigits 2 (nat m) @ ''-'' @ fixedDigits 2 (nat d))"
    by (rule ISO_YMD_layout) (simp_all add: fixedDigits_all_digits)
  then show ?thesis
    using assms by (simp only: dt isoDate10_fixed)
qed

lemma length_isoDate10_fourDigit: "fourDigitDate dt \<Longrightarrow> length (isoDate10 dt) = 10"
  by (cases dt) (simp add: isoDate10_fixed)

lemma parseYmd_isoDate10:
  assumes "fourDigitDate dt"
  shows "parseYmd (isoDate10 dt) = Some dt"
proof -
  obtain y m d where dt: "dt = (y, m, d)"
    by (cases dt) auto
  have m: "1 \<le> m" "m \<le> 12" and d: "1 \<le> d" "d \<le> 31" and y: "0 \<le> y" "y \<le> 9999"
    using assms monthLength_le[of y m] by (auto simp: dt fourDigitDate_def validDate_def)
  have lt: "nat y < 10 ^ 4" "nat m < 10 ^ 2" "nat d < 10 ^ 2"
    using m d y by auto
  let ?s = "isoDate10 dt"
  have s: "?s = fixedDigits 4 (nat y) @ ''-'' @ fixedDigits 2 (nat m) @ ''-'' @ fixedDigits 2 (nat d)"
    using assms by (simp add: dt isoDate10_fixed)
  have "take 4 ?s = fixedDigits 4 (nat y)" "take 2 (drop 5 ?s) = fixedDigits 2 (nat m)"
    "drop 8 ?s = fixedDigits 2 (nat d)"
    by (simp_all add: s)
  then have "int (digitsValue (take 4 ?s)) = y" "int (digitsValue (take 2 (drop 5 ?s))) = m"
    "int (digitsValue (drop 8 ?s)) = d"
    using lt y m d by (simp_all add: digitsValue_fixedDigits)
  moreover have "ISO_YMD ?s"
    using assms by (rule ISO_YMD_isoDate10)
  moreover have "validDate (y, m, d)" "timeClip (y, m, d) = Some (y, m, d)"
    using assms timeClip_fourDigit[OF assms] by (simp_all add: dt fourDigitDate_def)
  ultimately show ?thesis
    by (simp add: parseYmd_def Let_def dt)
qed

lemma isoDate10_less_iff:
  assumes "fourDigitDate a" "fourDigitDate b"
  shows "isoDate10 a < isoDate10 b \<longleftrightarrow> a < b"
proof -
  obtain y m d where a: "a = (y, m, d)"
    by (cases a) auto
  obtain y' m' d' where b: "b = (y', m', d')"
    by (cases b) auto
  have ra: "1 \<le> m" "m \<le> 12" "1 \<le> d" "d \<le> 31" "0 \<le> y" "y \<le> 9999"
    using assms(1) monthLength_le[of y m] by (auto simp: a fourDigitDate_def validDate_def)
  have rb: "1 \<le> m'" "m' \<le> 12" "1 \<le> d'" "d' \<le> 31" "0 \<le> y'" "y' \<le> 9999"
    using assms(2) monthLength_le[of y' m'] by (auto simp: b fourDigitDate_def validDate_def)
  have lt: "nat y < 10 ^ 4" "nat m < 10 ^ 2" "nat d < 10 ^ 2"
    "nat y' < 10 ^ 4" "nat m' < 10 ^ 2" "nat d' < 10 ^ 2"
    using ra rb by auto
  let ?Y = "fixedDigits 4 (nat y)" and ?M = "fixedDigits 2 (nat m)" and ?D = "fixedDigits 2 (nat d)"
  let ?Y' = "fixedDigits 4 (nat y')" and ?M' = "fixedDigits 2 (nat m')"
    and ?D' = "fixedDigits 2 (nat d')"
  have ea: "isoDate10 a = ?Y @ (CHR ''-'' # (?M @ (CHR ''-'' # ?D)))"
    using assms(1) by (simp add: a isoDate10_fixed)
  have eb: "isoDate10 b = ?Y' @ (CHR ''-'' # (?M' @ (CHR ''-'' # ?D')))"
    using assms(2) by (simp add: b isoDate10_fixed)
  have s1: "?Y @ (CHR ''-'' # (?M @ (CHR ''-'' # ?D))) < ?Y' @ (CHR ''-'' # (?M' @ (CHR ''-'' # ?D')))
          \<longleftrightarrow> ?Y < ?Y' \<or> (?Y = ?Y'
                \<and> CHR ''-'' # (?M @ (CHR ''-'' # ?D)) < CHR ''-'' # (?M' @ (CHR ''-'' # ?D')))"
    by (rule less_append_same_length) simp
  have s2: "CHR ''-'' # (?M @ (CHR ''-'' # ?D)) < CHR ''-'' # (?M' @ (CHR ''-'' # ?D'))
          \<longleftrightarrow> ?M @ (CHR ''-'' # ?D) < ?M' @ (CHR ''-'' # ?D')"
    by (simp only: Cons_less_Cons) simp
  have s3: "?M @ (CHR ''-'' # ?D) < ?M' @ (CHR ''-'' # ?D')
          \<longleftrightarrow> ?M < ?M' \<or> (?M = ?M' \<and> CHR ''-'' # ?D < CHR ''-'' # ?D')"
    by (rule less_append_same_length) simp
  have s4: "CHR ''-'' # ?D < CHR ''-'' # ?D' \<longleftrightarrow> ?D < ?D'"
    by (simp only: Cons_less_Cons) simp
  have "isoDate10 a < isoDate10 b \<longleftrightarrow>
          ?Y < ?Y' \<or> (?Y = ?Y' \<and> (?M < ?M' \<or> (?M = ?M' \<and> ?D < ?D')))"
    by (simp only: ea eb s1 s2 s3 s4)
  also have "\<dots> \<longleftrightarrow> nat y < nat y' \<or> (nat y = nat y'
              \<and> (nat m < nat m' \<or> (nat m = nat m' \<and> nat d < nat d')))"
  proof -
    have "?Y < ?Y' \<longleftrightarrow> nat y < nat y'" "?Y = ?Y' \<longleftrightarrow> nat y = nat y'"
      using lt by (simp_all only: fixedDigits_less_iff fixedDigits_eq_iff)
    moreover have "?M < ?M' \<longleftrightarrow> nat m < nat m'" "?M = ?M' \<longleftrightarrow> nat m = nat m'"
      using lt by (simp_all only: fixedDigits_less_iff fixedDigits_eq_iff)
    moreover have "?D < ?D' \<longleftrightarrow> nat d < nat d'"
      using lt by (simp only: fixedDigits_less_iff)
    ultimately show ?thesis
      by (simp only:)
  qed
  also have "\<dots> \<longleftrightarrow> y < y' \<or> (y = y' \<and> (m < m' \<or> (m = m' \<and> d < d')))"
  proof -
    have "nat y < nat y' \<longleftrightarrow> y < y'" "nat y = nat y' \<longleftrightarrow> y = y'"
      "nat m < nat m' \<longleftrightarrow> m < m'" "nat m = nat m' \<longleftrightarrow> m = m'" "nat d < nat d' \<longleftrightarrow> d < d'"
      using ra rb by linarith+
    then show ?thesis
      by (simp only:)
  qed
  also have "\<dots> \<longleftrightarrow> a < b"
    unfolding a b less_prod_simp by auto
  finally show ?thesis .
qed

lemma isoDate10_eq_iff:
  assumes "fourDigitDate a" "fourDigitDate b"
  shows "isoDate10 a = isoDate10 b \<longleftrightarrow> a = b"
proof
  assume "isoDate10 a = isoDate10 b"
  then have "parseYmd (isoDate10 a) = parseYmd (isoDate10 b)"
    by (rule arg_cong)
  then show "a = b"
    by (simp only: parseYmd_isoDate10[OF assms(1)] parseYmd_isoDate10[OF assms(2)] option.inject)
next
  assume "a = b"
  then show "isoDate10 a = isoDate10 b"
    by (rule arg_cong)
qed

lemma isoDate10_le_iff:
  assumes "fourDigitDate a" "fourDigitDate b"
  shows "isoDate10 a \<le> isoDate10 b \<longleftrightarrow> a \<le> b"
  by (simp only: le_less isoDate10_less_iff[OF assms] isoDate10_eq_iff[OF assms])

lemma fourDigitDate_prevDay:
  assumes "fourDigitDate dt" "1 \<le> fst dt"
  shows "fourDigitDate (prevDay dt)"
proof -
  obtain y m d where dt: "dt = (y, m, d)"
    by (cases dt) auto
  have "0 \<le> fst (prevDay dt) \<and> fst (prevDay dt) \<le> 9999"
    using assms by (auto simp: dt prevDay_def fourDigitDate_def)
  then show ?thesis
    using assms(1) validDate_prevDay[of dt] by (simp add: fourDigitDate_def)
qed


subsection \<open>Adding days in the runtime's zone\<close>

lemma addDaysYmd_zone:
  assumes "fourDigitDate dt" "fourDigitDate (plusDays dt n)"
  shows "addDaysYmd tz (isoDate10 dt) n = Inr (isoDate10 (arrivalDate tz dt n))"
  using assms
  by (simp add: addDaysYmd_def parseYmd_isoDate10 setDatePlus_def timeClip_fourDigit
      jstYmdFromDate_def arrivalDate_def)

lemma fourDigitDate_arrivalDate:
  assumes "fourDigitDate (plusDays dt n)" "1 \<le> fst (plusDays dt n)"
  shows "fourDigitDate (arrivalDate tz dt n)"
  using assms by (simp add: arrivalDate_def fourDigitDate_prevDay)


lemma addDaysYmd_fourDigit:
  assumes "fourDigitDate dt" "fourDigitDate (plusDays dt n)"
    and "\<not> summerMidnight tz (plusDays dt n)"
  shows "addDaysYmd tz (isoDate10 dt) n = Inr (isoDate10 (plusDays dt n))"
  using addDaysYmd_zone[OF assms(1,2), of tz] assms(3) by (simp add: arrivalDate_def)

lemma asiaTokyo_standard:
  assumes "(1951, 9, 9) < d"
  shows "\<not> summerMidnight asiaTokyo d \<and> \<not> summerAt asiaTokyo d"
proof -
  have "\<not> d \<le> e" if "e \<le> (1951, 9, 9)" for e :: date
    using assms that by auto
  moreover have "\<not> d < e" if "e \<le> (1951, 9, 9)" for e :: date
    using assms that by auto
  ultimately show ?thesis
    by (simp add: asiaTokyo_def tokyoSummers_def)
qed


section \<open>Phase-aligned next date\<close>

lemma fourDigitDate_between:
  assumes "fourDigitDate l" "0 \<le> n" "fst (plusDays l n) \<le> 9999"
  shows "fourDigitDate (plusDays l n)"
proof -
  have "l \<le> plusDays l n"
    using assms(2) plusDays_less[of n l] by (cases "n = 0") auto
  then have "fst l \<le> fst (plusDays l n)"
    by (rule fst_mono_date)
  then show ?thesis
    using assms by (simp add: fourDigitDate_def validDate_plusDays)
qed

lemma skipPast_least:
  assumes "fourDigitDate l" "fourDigitDate t" "1 \<le> c" "j \<le> k"
    and "\<forall>i. j \<le> i \<and> i < k \<longrightarrow> plusDays l (int i * c) \<le> t"
    and "t < plusDays l (int k * c)"
    and "fst (plusDays l (int k * c)) \<le> 9999"
    and "\<forall>d. l < d \<longrightarrow> \<not> summerMidnight tz d"
  shows "skipPast tz (isoDate10 (plusDays l (int j * c))) c (isoDate10 t)
           = Some (Inr (isoDate10 (plusDays l (int k * c))))"
  using assms(4,5)
proof (induction "k - j" arbitrary: j)
  case 0
  then have jk: "j = k" by simp
  have fd: "fourDigitDate (plusDays l (int k * c))"
    using assms(1,3,7) by (intro fourDigitDate_between) auto
  have "\<not> isoDate10 (plusDays l (int k * c)) \<le> isoDate10 t"
    using assms(6) by (simp add: isoDate10_le_iff[OF fd assms(2)] not_le)
  then show ?case
    by (subst skipPast.simps) (simp add: jk)
next
  case (Suc n)
  then have jk: "j < k" by simp
  have le: "plusDays l (int j * c) \<le> t"
    using Suc.prems(2) jk by simp
  have c0: "0 \<le> int j * c" "0 \<le> int (Suc j) * c"
    using assms(3) by simp_all
  have "fst (plusDays l (int j * c)) \<le> fst t"
    using le by (rule fst_mono_date)
  then have fdj: "fourDigitDate (plusDays l (int j * c))"
    using assms(1,2) c0 by (intro fourDigitDate_between) (auto simp: fourDigitDate_def)
  have next_eq: "plusDays (plusDays l (int j * c)) c = plusDays l (int (Suc j) * c)"
    using assms(3) c0 by (simp add: plusDays_add algebra_simps)
  have "fst (plusDays l (int (Suc j) * c)) \<le> 9999"
  proof (cases "Suc j = k")
    case True
    then show ?thesis using assms(7) by simp
  next
    case False
    from Suc.prems(2) have "j \<le> Suc j \<and> Suc j < k \<longrightarrow> plusDays l (int (Suc j) * c) \<le> t"
      by (rule spec)
    then have "plusDays l (int (Suc j) * c) \<le> t"
      using False jk by simp
    then have "fst (plusDays l (int (Suc j) * c)) \<le> fst t"
      by (rule fst_mono_date)
    then show ?thesis
      using assms(2) by (simp add: fourDigitDate_def)
  qed
  then have fds: "fourDigitDate (plusDays l (int (Suc j) * c))"
    using assms(1) c0 by (intro fourDigitDate_between) auto
  have "l < plusDays l (int (Suc j) * c)"
    using assms(3) by (intro plusDays_less) simp
  then have std: "\<not> summerMidnight tz (plusDays l (int (Suc j) * c))"
    using assms(8) by blast
  have step: "addDaysYmd tz (isoDate10 (plusDays l (int j * c))) c
                = Inr (isoDate10 (plusDays l (int (Suc j) * c)))"
    using addDaysYmd_fourDigit[OF fdj, of c tz] fds std by (simp add: next_eq)
  have cont: "isoDate10 (plusDays l (int j * c)) \<le> isoDate10 t"
    using le by (simp add: isoDate10_le_iff[OF fdj assms(2)])
  have ih: "skipPast tz (isoDate10 (plusDays l (int (Suc j) * c))) c (isoDate10 t)
              = Some (Inr (isoDate10 (plusDays l (int k * c))))"
    using Suc.hyps(2) Suc.prems(2) jk by (intro Suc.hyps(1)) auto
  show ?case
    using cont step ih by (subst skipPast.simps) simp
qed

lemma phaseAlignedNext_least:
  assumes "fourDigitDate l" "fourDigitDate t" "1 \<le> c" "1 \<le> k"
    and "\<forall>i. 1 \<le> i \<and> i < k \<longrightarrow> plusDays l (int i * c) \<le> t"
    and "t < plusDays l (int k * c)"
    and "fst (plusDays l (int k * c)) \<le> 9999"
    and "\<forall>d. l < d \<longrightarrow> \<not> summerMidnight tz d"
  shows "phaseAlignedNext tz (isoDate10 l) c (isoDate10 t)
           = Some (Inr (isoDate10 (plusDays l (int k * c))))"
proof -
  have "fst (plusDays l (int 1 * c)) \<le> 9999"
  proof (cases "k = 1")
    case True
    then show ?thesis using assms(7) by simp
  next
    case False
    from assms(5) have "1 \<le> (1::nat) \<and> 1 < k \<longrightarrow> plusDays l (int 1 * c) \<le> t"
      by (rule spec)
    then have "plusDays l (int 1 * c) \<le> t"
      using False assms(4) by simp
    then have "fst (plusDays l (int 1 * c)) \<le> fst t"
      by (rule fst_mono_date)
    then show ?thesis
      using assms(2) by (simp add: fourDigitDate_def)
  qed
  then have fd1: "fourDigitDate (plusDays l c)"
    using assms(1,3) by (intro fourDigitDate_between) auto
  have "l < plusDays l c"
    using assms(3) by (intro plusDays_less) simp
  then have "\<not> summerMidnight tz (plusDays l c)"
    using assms(8) by blast
  then have first: "addDaysYmd tz (isoDate10 l) c = Inr (isoDate10 (plusDays l (int 1 * c)))"
    using addDaysYmd_fourDigit[OF assms(1) fd1, of tz] by simp
  have "skipPast tz (isoDate10 (plusDays l (int 1 * c))) c (isoDate10 t)
          = Some (Inr (isoDate10 (plusDays l (int k * c))))"
    using assms by (intro skipPast_least) auto
  then show ?thesis
    using first by (simp add: phaseAlignedNext_def)
qed

lemma phase_example:
  "predictNextDatePhaseAligned asiaTokyo now
     \<lparr>tankType = None, cycleDays = Some 38, lastDate = Some ''2024-01-10'',
      historyDates = None, today = Some ''2024-02-20''\<rparr> = Some (Inr ''2024-03-26'')"
  by code_simp

lemma dayIndex_nextDay: "validDate dt \<Longrightarrow> dayIndex dt + 1 \<le> dayIndex (nextDay dt)"
proof -
  assume v: "validDate dt"
  obtain y m d where dt: "dt = (y, m, d)"
    by (cases dt) auto
  show ?thesis
    using v monthLength_le[of y m] by (auto simp: dt validDate_def nextDay_def dayIndex_def)
qed

lemma dayIndex_funpow: "validDate dt \<Longrightarrow> dayIndex dt + int n \<le> dayIndex ((nextDay ^^ n) dt)"
proof (induction n)
  case 0
  then show ?case by simp
next
  case (Suc n)
  have "validDate ((nextDay ^^ n) dt)"
    using Suc.prems by (rule validDate_funpow_nextDay)
  then have "dayIndex ((nextDay ^^ n) dt) + 1 \<le> dayIndex (nextDay ((nextDay ^^ n) dt))"
    by (rule dayIndex_nextDay)
  then show ?case
    using Suc by simp
qed

lemma dayIndex_mono:
  assumes "validDate a" "validDate b" "a \<le> b"
  shows "dayIndex a \<le> dayIndex b"
proof -
  obtain y m d where a: "a = (y, m, d)"
    by (cases a) auto
  obtain y' m' d' where b: "b = (y', m', d')"
    by (cases b) auto
  have "1 \<le> m" "m \<le> 12" "1 \<le> d" "d \<le> 31" "1 \<le> m'" "m' \<le> 12" "1 \<le> d'" "d' \<le> 31"
    using assms(1,2) monthLength_le[of y m] monthLength_le[of y' m']
    by (auto simp: a b validDate_def)
  moreover have "y < y' \<or> (y = y' \<and> (m < m' \<or> (m = m' \<and> d \<le> d')))"
    using assms(3) by (auto simp: a b)
  ultimately show ?thesis
    by (auto simp: a b dayIndex_def)
qed

lemma least_cycle_exists:
  assumes "validDate l" "validDate t" "1 \<le> c"
  shows "\<exists>k\<ge>1. t < plusDays l (int k * c)
           \<and> (\<forall>i. 1 \<le> i \<and> i < k \<longrightarrow> plusDays l (int i * c) \<le> t)"
proof -
  let ?P = "\<lambda>k. 1 \<le> k \<and> t < plusDays l (int k * c)"
  let ?n = "nat (dayIndex t - dayIndex l) + 1"
  have big: "int ?n \<le> int ?n * c"
    using assms(3) by (simp add: mult_le_cancel_left1)
  have "0 \<le> int ?n * c"
    using assms(3) by simp
  then have pd: "plusDays l (int ?n * c) = (nextDay ^^ nat (int ?n * c)) l"
    unfolding plusDays_def by (rule if_P)
  have "dayIndex l + int (nat (int ?n * c)) \<le> dayIndex ((nextDay ^^ nat (int ?n * c)) l)"
    using assms(1) by (rule dayIndex_funpow)
  then have "dayIndex t < dayIndex (plusDays l (int ?n * c))"
    using big unfolding pd by linarith
  then have "\<not> plusDays l (int ?n * c) \<le> t"
    using dayIndex_mono[OF validDate_plusDays[OF assms(1)] assms(2)] by force
  then have "?P ?n"
    by simp
  then have least: "?P (LEAST k. ?P k)"
    by (rule LeastI)
  have below: "\<not> ?P i" if "i < (LEAST k. ?P k)" for i
    using that by (rule not_less_Least)
  show ?thesis
    using least below by (intro exI[of _ "LEAST k. ?P k"]) (auto simp: not_less)
qed

text \<open>
  Claim C5, where the runtime's zone has no summer time after the last delivery date (as
  Asia/Tokyo from 1952 on). For a last delivery date and a today that are calendar dates
  written \<open>YYYY-MM-DD\<close> and a cycle of at least one day, there is a least \<open>k \<ge> 1\<close> with
  \<open>last + k * cycle > today\<close>, and (its year still having four digits) both
  \<open>predictNextDatePhaseAligned\<close> and the loop of the fallback branch return
  \<open>last + k * cycle\<close>; for 2024-01-10, 38 and 2024-02-20 that is 2024-03-26.
\<close>

theorem predictNextDatePhaseAligned_phase:
  assumes "fourDigitDate l" "fourDigitDate t" "1 \<le> c"
    and "\<forall>d. l < d \<longrightarrow> \<not> summerMidnight tz d"
  shows "(\<exists>k\<ge>1. t < plusDays l (int k * c)
            \<and> (\<forall>i. 1 \<le> i \<and> i < k \<longrightarrow> plusDays l (int i * c) \<le> t)
            \<and> (fst (plusDays l (int k * c)) \<le> 9999 \<longrightarrow>
                 predictNextDatePhaseAligned tz now
                   \<lparr>tankType = tt, cycleDays = Some c, lastDate = Some (isoDate10 l),
                    historyDates = None, today = Some (isoDate10 t)\<rparr>
                   = Some (Inr (isoDate10 (plusDays l (int k * c))))
                 \<and> phaseAlignedNext tz (isoDate10 l) c (isoDate10 t)
                     = Some (Inr (isoDate10 (plusDays l (int k * c))))))
         \<and> predictNextDatePhaseAligned asiaTokyo now
             \<lparr>tankType = None, cycleDays = Some 38, lastDate = Some ''2024-01-10'',
              historyDates = None, today = Some ''2024-02-20''\<rparr> = Some (Inr ''2024-03-26'')"
proof -
  obtain k where k: "1 \<le> k" "t < plusDays l (int k * c)"
      "\<forall>i. 1 \<le> i \<and> i < k \<longrightarrow> plusDays l (int i * c) \<le> t"
    using least_cycle_exists[of l t c] assms by (auto simp: fourDigitDate_def)
  have iso: "ISO_YMD (isoDate10 l)" "isoDate10 l \<noteq> []"
    using ISO_YMD_isoDate10[OF assms(1)] length_isoDate10_fourDigit[OF assms(1)] by auto
  have "predictNextDatePhaseAligned tz now
          \<lparr>tankType = tt, cycleDays = Some c, lastDate = Some (isoDate10 l),
           historyDates = None, today = Some (isoDate10 t)\<rparr>
          = Some (Inr (isoDate10 (plusDays l (int k * c))))
        \<and> phaseAlignedNext tz (isoDate10 l) c (isoDate10 t)
            = Some (Inr (isoDate10 (plusDays l (int k * c))))"
    if fit: "fst (plusDays l (int k * c)) \<le> 9999"
  proof -
    have p: "phaseAlignedNext tz (isoDate10 l) c (isoDate10 t)
               = Some (Inr (isoDate10 (plusDays l (int k * c))))"
      using assms(1-3) k(1,3,2) fit assms(4) by (rule phaseAlignedNext_least)
    show ?thesis
      using p iso by (simp add: predictNextDatePhaseAligned_def Let_def)
  qed
  then show ?thesis
    using k phase_example by blast
qed

theorem predictNextDatePhaseAligned_phase_witness:
  "fourDigitDate (2024, 1, 10) \<and> fourDigitDate (2024, 2, 20) \<and> (1::int) \<le> 38
   \<and> \<not> summerMidnight asiaTokyo (2024, 3, 26)
   \<and> (\<exists>k\<ge>1. (2024, 2, 20) < plusDays (2024, 1, 10) (int k * 38)
         \<and> phaseAlignedNext asiaTokyo (isoDate10 (2024, 1, 10)) 38 (isoDate10 (2024, 2, 20))
             = Some (Inr (isoDate10 (plusDays (2024, 1, 10) (int k * 38)))))"
proof -
  have a: "fourDigitDate (2024, 1, 10)" "fourDigitDate (2024, 2, 20)"
    by (simp_all add: fourDigitDate_def validDate_def monthLength_def isLeapYear_def)
  have small: "fst (plusDays (2024, 1, 10) (int k * 38)) \<le> 9999"
    if "(\<forall>i. 1 \<le> i \<and> i < k \<longrightarrow> plusDays (2024, 1, 10) (int i * 38) \<le> (2024, 2, 20))" for k
  proof -
    have two: "plusDays (2024, 1, 10) 76 = (2024, 3, 26)"
      by code_simp
    have "k \<le> 2"
    proof (rule ccontr)
      assume "\<not> k \<le> 2"
      moreover from that
      have "1 \<le> (2::nat) \<and> 2 < k \<longrightarrow> plusDays (2024, 1, 10) (int 2 * 38) \<le> (2024, 2, 20)"
        by (rule spec)
      ultimately have "plusDays (2024, 1, 10) (int 2 * 38) \<le> (2024, 2, 20)"
        by simp
      then show False
        by (simp add: two)
    qed
    then have "plusDays (2024, 1, 10) (int k * 38) \<le> plusDays (2024, 1, 10) (int 2 * 38)"
      using plusDays_strict_mono[of "int k * 38" "int 2 * 38" "(2024, 1, 10)"]
      by (cases "k = 2") auto
    then have "fst (plusDays (2024, 1, 10) (int k * 38)) \<le> fst (plusDays (2024, 1, 10) (int 2 * 38))"
      by (rule fst_mono_date)
    then show ?thesis
      by (simp add: two)
  qed
  have c: "(1::int) \<le> 38"
    by simp
  have std: "\<forall>d. (2024, 1, 10) < d \<longrightarrow> \<not> summerMidnight asiaTokyo d"
  proof (intro allI impI)
    fix d :: date
    assume "(2024, 1, 10) < d"
    then have "(1951, 9, 9) < d"
      by (rule less_trans[rotated]) simp
    then show "\<not> summerMidnight asiaTokyo d"
      using asiaTokyo_standard by blast
  qed
  have s26: "\<not> summerMidnight asiaTokyo (2024, 3, 26)"
    using std by simp
  note th = predictNextDatePhaseAligned_phase [OF a(1) a(2) c std, of "[]" None, THEN conjunct1]
  from th obtain k where k1: "1 \<le> k"
    and k: "(2024, 2, 20) < plusDays (2024, 1, 10) (int k * 38)
       \<and> (\<forall>i. 1 \<le> i \<and> i < k \<longrightarrow> plusDays (2024, 1, 10) (int i * 38) \<le> (2024, 2, 20))
       \<and> (fst (plusDays (2024, 1, 10) (int k * 38)) \<le> 9999 \<longrightarrow>
             predictNextDatePhaseAligned asiaTokyo []
               \<lparr>tankType = None, cycleDays = Some 38, lastDate = Some (isoDate10 (2024, 1, 10)),
                historyDates = None, today = Some (isoDate10 (2024, 2, 20))\<rparr>
               = Some (Inr (isoDate10 (plusDays (2024, 1, 10) (int k * 38))))
             \<and> phaseAlignedNext asiaTokyo (isoDate10 (2024, 1, 10)) 38 (isoDate10 (2024, 2, 20))
                 = Some (Inr (isoDate10 (plusDays (2024, 1, 10) (int k * 38)))))"
    by (elim exE conjE) (rule that, assumption, intro conjI, assumption+)
  have fit: "fst (plusDays (2024, 1, 10) (int k * 38)) \<le> 9999"
    using k[THEN conjunct2, THEN conjunct1] by (rule small)
  have res: "phaseAlignedNext asiaTokyo (isoDate10 (2024, 1, 10)) 38 (isoDate10 (2024, 2, 20))
         = Some (Inr (isoDate10 (plusDays (2024, 1, 10) (int k * 38))))"
    using k[THEN conjunct2, THEN conjunct2, rule_format, OF fit] by (rule conjunct2)
  have "\<exists>k\<ge>1. (2024, 2, 20) < plusDays (2024, 1, 10) (int k * 38)
         \<and> phaseAlignedNext asiaTokyo (isoDate10 (2024, 1, 10)) 38 (isoDate10 (2024, 2, 20))
             = Some (Inr (isoDate10 (plusDays (2024, 1, 10) (int k * 38))))"
    using k1 k[THEN conjunct1] res by (intro exI[of _ k] conjI)
  then show ?thesis
    using a c s26 by (intro conjI)
qed

text \<open>
  Claim C5 fails in the code where summer time begins between two steps. Under Asia/Tokyo a
  last delivery on 1950-04-01 with a cycle of 38 days and today 1950-04-01 has
  \<open>last + 1 * cycle\<close> = 1950-05-09, after the change to summer time of 1950-05-07: the
  \<open>Date\<close> that \<open>setDate\<close> leaves is 00:00 local time, 23:00 standard time of the day
  before, and \<open>jstYmdFromDate\<close> prints 1950-05-08.
\<close>

theorem predictNextDatePhaseAligned_summer_time:
  "fourDigitDate (1950, 4, 1) \<and> plusDays (1950, 4, 1) (int 1 * 38) = (1950, 5, 9)
   \<and> (1950, 4, 1) < plusDays (1950, 4, 1) (int 1 * 38)
   \<and> summerMidnight asiaTokyo (1950, 5, 9) \<and> \<not> summerAt asiaTokyo (1950, 4, 1)
   \<and> predictNextDatePhaseAligned asiaTokyo ''1950-04-01''
       \<lparr>tankType = None, cycleDays = Some 38, lastDate = Some ''1950-04-01'',
        historyDates = None, today = Some ''1950-04-01''\<rparr> = Some (Inr ''1950-05-08'')
   \<and> phaseAlignedNext asiaTokyo ''1950-04-01'' 38 ''1950-04-01'' = Some (Inr ''1950-05-08'')"
proof -
  have p: "plusDays (1950, 4, 1) 38 = (1950, 5, 9)"
    by code_simp
  have d: "fourDigitDate (1950, 4, 1)"
    by (simp add: fourDigitDate_def validDate_def monthLength_def)
  have z: "summerMidnight asiaTokyo (1950, 5, 9)" "\<not> summerAt asiaTokyo (1950, 4, 1)"
    by (simp_all add: asiaTokyo_def tokyoSummers_def)
  have n: "phaseAlignedNext asiaTokyo ''1950-04-01'' 38 ''1950-04-01'' = Some (Inr ''1950-05-08'')"
    by code_simp
  have "predictNextDatePhaseAligned asiaTokyo ''1950-04-01''
       \<lparr>tankType = None, cycleDays = Some 38, lastDate = Some ''1950-04-01'',
        historyDates = None, today = Some ''1950-04-01''\<rparr> = Some (Inr ''1950-05-08'')"
    by code_simp
  then show ?thesis
    using p d z n by simp
qed

section \<open>Next date at registration: the fallback on a failed call\<close>

lemma ISO_YMD_nonempty: "ISO_YMD s \<Longrightarrow> s \<noteq> []"
  by auto


lemma predictNextByApi_ok:
  "\<not> apiFailed r \<Longrightarrow> \<exists>s. predictNextByApi r = Some s \<and> ISO_YMD s"
  by (auto simp: apiFailed_def predictNextByApi_def validPayload_def
      split: ApiResult.splits JsonBody.splits option.splits)




subsection \<open>Double precision at the values of the examples\<close>













subsection \<open>The fallback date\<close>












section \<open>The plan from the history: errors and termination\<close>

subsection \<open>The history by year\<close>

lemma keys_pushYear: "fst ` set (pushYear y d al) = insert y (fst ` set al)"
  by (induction y d al rule: pushYear.induct) auto

lemma nonempty_pushYear:
  "\<forall>e\<in>set al. snd e \<noteq> [] \<Longrightarrow> \<forall>e\<in>set (pushYear y d al). snd e \<noteq> []"
  by (induction y d al rule: pushYear.induct) auto

lemma splitStep_eq:
  "splitStep B mn acc d = (if keptYear B mn d then pushYear (int (digitsValue (take 4 d))) d acc else acc)"
  by (auto simp: splitStep_def keptYear_def Let_def)

lemma keys_split_fold:
  "fst ` set (foldl (splitStep B mn) acc hs)
     = fst ` set acc \<union> (\<lambda>d. int (digitsValue (take 4 d))) ` {d \<in> set hs. keptYear B mn d}"
proof (induction hs arbitrary: acc)
  case Nil
  then show ?case by simp
next
  case (Cons d hs)
  have step: "fst ` set (splitStep B mn acc d)
                = fst ` set acc \<union> (if keptYear B mn d then {int (digitsValue (take 4 d))} else {})"
    by (simp add: splitStep_eq[of B mn acc d] keys_pushYear)
  have "fst ` set (foldl (splitStep B mn) acc (d # hs))
          = fst ` set (splitStep B mn acc d)
              \<union> (\<lambda>d. int (digitsValue (take 4 d))) ` {d \<in> set hs. keptYear B mn d}"
    using Cons.IH[of "splitStep B mn acc d"] by simp
  then show ?case
    unfolding step by auto
qed

lemma nonempty_split_fold:
  "\<forall>e\<in>set acc. snd e \<noteq> [] \<Longrightarrow> \<forall>e\<in>set (foldl (splitStep B mn) acc hs). snd e \<noteq> []"
proof (induction hs arbitrary: acc)
  case Nil
  then show ?case by simp
next
  case (Cons d hs)
  have "\<forall>e\<in>set (splitStep B mn acc d). snd e \<noteq> []"
    using Cons.prems nonempty_pushYear[OF Cons.prems]
    by (simp add: splitStep_eq[of B mn acc d])
  then have "\<forall>e\<in>set (foldl (splitStep B mn) (splitStep B mn acc d) hs). snd e \<noteq> []"
    by (rule Cons.IH)
  then show ?case
    by simp
qed

lemma splitHistoryByYear_fold:
  "splitHistoryByYear hs B W = map (\<lambda>(y, ds). (y, sort ds)) (foldl (splitStep B (B - W)) [] hs)"
  unfolding splitHistoryByYear_def splitStep_def Let_def by (rule refl)

lemma keys_splitHistoryByYear:
  "fst ` set (splitHistoryByYear hs B W)
     = (\<lambda>d. int (digitsValue (take 4 d))) ` {d \<in> set hs. keptYear B (B - W) d}"
proof -
  have "fst ` set (splitHistoryByYear hs B W) = fst ` set (foldl (splitStep B (B - W)) [] hs)"
    by (force simp: splitHistoryByYear_fold)
  then show ?thesis
    by (simp add: keys_split_fold)
qed

lemma nonempty_splitHistoryByYear:
  "\<forall>e\<in>set (splitHistoryByYear hs B W). snd e \<noteq> []"
proof -
  have ne: "\<forall>e\<in>set (foldl (splitStep B (B - W)) [] hs). snd e \<noteq> []"
    by (rule nonempty_split_fold) simp
  show ?thesis
  proof
    fix e assume "e \<in> set (splitHistoryByYear hs B W)"
    then obtain y ds where yds: "(y, ds) \<in> set (foldl (splitStep B (B - W)) [] hs)"
        and e: "e = (y, sort ds)"
      by (auto simp: splitHistoryByYear_fold)
    have ds: "ds \<noteq> []"
      using ne yds by force
    have "sort ds \<noteq> []"
    proof
      assume "sort ds = []"
      then have "length (sort ds) = 0"
        by simp
      then have "length ds = 0"
        by (simp only: length_sort)
      then show False
        using ds by simp
    qed
    then show "snd e \<noteq> []"
      unfolding e by simp
  qed
qed

lemma baseYear_key_iff:
  assumes "0 \<le> W"
  shows "B \<in> fst ` set (splitHistoryByYear hs B W) \<longleftrightarrow> hasBaseYearDate hs B"
  using assms by (auto simp: keys_splitHistoryByYear keptYear_def hasBaseYearDate_def)

lemma set_calcYearlyCounts:
  "set (calcYearlyCounts byYear) = (\<lambda>(y, ds). \<lparr>year = y, count = int (length ds)\<rparr>) ` set byYear"
  by (simp add: calcYearlyCounts_def)

lemma find_baseYear_None:
  assumes "\<not> hasBaseYearDate hs B"
  shows "find (\<lambda>s. year s = B) (calcYearlyCounts (splitHistoryByYear hs B 3)) = None"
proof -
  have "B \<notin> fst ` set (splitHistoryByYear hs B 3)"
    using assms by (simp add: baseYear_key_iff)
  then have "\<not> (\<exists>s\<in>set (calcYearlyCounts (splitHistoryByYear hs B 3)). year s = B)"
    by (force simp: set_calcYearlyCounts)
  then show ?thesis
    by (simp add: find_None_iff)
qed

lemma find_baseYear_Some:
  assumes "hasBaseYearDate hs B"
  shows "\<exists>s. find (\<lambda>s. year s = B) (calcYearlyCounts (splitHistoryByYear hs B 3)) = Some s
           \<and> 0 < count s"
proof -
  let ?ycs = "calcYearlyCounts (splitHistoryByYear hs B 3)"
  have "B \<in> fst ` set (splitHistoryByYear hs B 3)"
    using assms by (simp add: baseYear_key_iff)
  then have "\<exists>s\<in>set ?ycs. year s = B"
    by (force simp: set_calcYearlyCounts)
  then obtain s where s: "find (\<lambda>s. year s = B) ?ycs = Some s"
    by (cases "find (\<lambda>s. year s = B) ?ycs") (auto simp: find_None_iff)
  then have "s \<in> set ?ycs"
    by (auto simp: find_Some_iff)
  then obtain y ds where "(y, ds) \<in> set (splitHistoryByYear hs B 3)" "count s = int (length ds)"
    by (auto simp: set_calcYearlyCounts)
  then have "0 < count s"
    using nonempty_splitHistoryByYear[of hs B 3] by force
  then show ?thesis
    using s by simp
qed

lemma yearlyCounts_nonempty:
  "hasBaseYearDate hs B \<Longrightarrow> calcYearlyCounts (splitHistoryByYear hs B 3) \<noteq> []"
  using find_baseYear_Some[of hs B] by auto

lemma history_nonempty: "hasBaseYearDate hs B \<Longrightarrow> hs \<noteq> []"
  by (auto simp: hasBaseYearDate_def)

subsection \<open>The loop over the months\<close>

lemma jsMakeDate_first:
  assumes "100 \<le> y" "y \<le> 10000" "1 \<le> m" "m \<le> 12"
  shows "jsMakeDate y (m - 1) 1 = Some (y, m, 1)"
proof -
  have "(m - 1) div 12 = 0" "(m - 1) mod 12 + 1 = m"
    using assms(3,4) by auto
  then show ?thesis
    using assms(1,2) by (simp add: jsMakeDate_def timeClip_def minDate_def maxDate_def)
qed

lemma monthsLoop_step:
  assumes "\<not> dateGreater (jsMakeDate y (m - 1) 1) e"
  shows "monthsLoop mc e y m acc =
           (if m = 12 then monthsLoop mc e (y + 1) 1 (acc @ monthDates mc y m)
            else monthsLoop mc e y (m + 1) (acc @ monthDates mc y m))"
  using assms by (subst monthsLoop.simps) (auto simp: Let_def monthDates_def split: option.splits)

lemma monthsLoop_in_domain:
  assumes "fst e \<le> 9999" "100 \<le> y" "y \<le> 10000" "1 \<le> m" "m \<le> 12"
  shows "monthsLoop mc (Some e) y m acc
           = Some (acc @ concat (map (\<lambda>(y, m). monthDates mc y m) (monthsUpTo e y m)))"
  using assms
proof (induction e y m arbitrary: acc rule: monthsUpTo.induct)
  case (1 e y m)
  have mk: "jsMakeDate y (m - 1) 1 = Some (y, m, 1)"
    using "1.prems"(2-5) by (rule jsMakeDate_first)
  show ?case
  proof (cases "(y, m, 1) \<le> e")
    case False
    then have "dateGreater (jsMakeDate y (m - 1) 1) (Some e)"
      by (simp add: mk dateGreater_def not_le)
    moreover have "monthsUpTo e y m = []"
      using False by (subst monthsUpTo.simps) simp
    ultimately show ?thesis
      by (subst monthsLoop.simps) simp
  next
    case True
    then have guard: "1 \<le> m \<and> m \<le> 12 \<and> (y, m, 1) \<le> e"
      using "1.prems" by simp
    have "y \<le> fst e"
      using True fst_mono_date[of "(y, m, 1)" e] by simp
    then have y1: "y + 1 \<le> 10000"
      using "1.prems"(1) by simp
    have ng: "\<not> dateGreater (jsMakeDate y (m - 1) 1) (Some e)"
      using True by (simp add: mk dateGreater_def not_less)
    show ?thesis
    proof (cases "m = 12")
      case True
      have ih: "monthsLoop mc (Some e) (y + 1) 1 (acc @ monthDates mc y m)
                  = Some ((acc @ monthDates mc y m)
                      @ concat (map (\<lambda>(y, m). monthDates mc y m) (monthsUpTo e (y + 1) 1)))"
        using "1.prems" y1 by (intro "1.IH"(1)[OF guard True]) auto
      have up: "monthsUpTo e y m = (y, m) # monthsUpTo e (y + 1) 1"
        using guard True by (subst monthsUpTo.simps) simp
      show ?thesis
        using monthsLoop_step[OF ng, of mc acc] True ih up by simp
    next
      case False
      have ih: "monthsLoop mc (Some e) y (m + 1) (acc @ monthDates mc y m)
                  = Some ((acc @ monthDates mc y m)
                      @ concat (map (\<lambda>(y, m). monthDates mc y m) (monthsUpTo e y (m + 1))))"
        using "1.prems" False by (intro "1.IH"(2)[OF guard False]) auto
      have up: "monthsUpTo e y m = (y, m) # monthsUpTo e y (m + 1)"
        using guard False by (subst monthsUpTo.simps) simp
      show ?thesis
        using monthsLoop_step[OF ng, of mc acc] False ih up by simp
    qed
  qed
qed

subsection \<open>When \<open>buildPlanFromHistory\<close> throws\<close>

lemma addDaysYmd_error: "addDaysYmd tz s n = Inl e \<Longrightarrow> e = RangeError"
  by (auto simp: addDaysYmd_def jstYmdFromDate_def split: option.splits)

lemma buildPlanFromHistory_no_baseYear:
  assumes "\<not> hasBaseYearDate hs B"
  shows "buildPlanFromHistory tz hs B start hz
           \<in> {Some (Inl EmptyHistory), Some (Inl NoValidHistory), Some (Inl NoBaseYearHistory)}"
  using find_baseYear_None[OF assms]
  by (simp add: buildPlanFromHistory_def Let_def)

lemma buildPlanFromHistory_baseYear:
  assumes "hasBaseYearDate hs B"
  shows "buildPlanFromHistory tz hs B start hz =
           (case addDaysYmd tz (startYmdOf B start) hz of
              Inl e \<Rightarrow> Some (Inl e)
            | Inr endYmd \<Rightarrow>
                (case parseYmd (startYmdOf B start) of
                   None \<Rightarrow> None
                 | Some (y, m, d) \<Rightarrow>
                     (case monthsLoop (monthlyCounts (planOf hs B start endYmd []))
                             (parseYmd endYmd) y m [] of
                        None \<Rightarrow> None
                      | Some plannedDatesAll \<Rightarrow> Some (Inr (planOf hs B start endYmd plannedDatesAll)))))"
proof -
  obtain s where s: "find (\<lambda>s. year s = B) (calcYearlyCounts (splitHistoryByYear hs B 3)) = Some s"
      "0 < count s"
    using find_baseYear_Some[OF assms] by blast
  have ne: "hs \<noteq> []" "calcYearlyCounts (splitHistoryByYear hs B 3) \<noteq> []"
    using assms by (simp_all add: history_nonempty yearlyCounts_nonempty)
  show ?thesis
    using s ne
    by (simp add: buildPlanFromHistory_def planOf_def Let_def
        split: sum.splits option.splits prod.splits)
qed

lemma buildPlanFromHistory_not_history_error:
  assumes "hasBaseYearDate hs B"
  shows "buildPlanFromHistory tz hs B start hz
           \<notin> {Some (Inl EmptyHistory), Some (Inl NoValidHistory), Some (Inl NoBaseYearHistory)}"
  using addDaysYmd_error[of tz "startYmdOf B start" hz]
  by (auto simp: buildPlanFromHistory_baseYear[OF assms] split: sum.splits option.splits prod.splits)

lemma buildPlanFromHistory_returns:
  assumes "hasBaseYearDate hs B" "fourDigitDate s" "100 \<le> fst s"
    and "startYmdOf B start = isoDate10 s" "0 \<le> hz" "fst (plusDays s hz) \<le> 9999"
  shows "buildPlanFromHistory tz hs B start hz
           = Some (Inr (planOf hs B start (isoDate10 (arrivalDate tz s hz))
               (concat (map (\<lambda>(y, m).
                    monthDates (monthlyCounts (planOf hs B start (isoDate10 (arrivalDate tz s hz)) [])) y m)
                  (monthsUpTo (arrivalDate tz s hz) (fst s) (fst (snd s)))))))"
proof -
  obtain y m d where s: "s = (y, m, d)"
    by (cases s) auto
  have fe: "fourDigitDate (plusDays s hz)"
    using assms(2,5,6) by (rule fourDigitDate_between)
  have "s \<le> plusDays s hz"
    using assms(5) plusDays_less[of hz s] by (cases "hz = 0") auto
  then have "fst s \<le> fst (plusDays s hz)"
    by (rule fst_mono_date)
  then have "1 \<le> fst (plusDays s hz)"
    using assms(3) by simp
  then have fa: "fourDigitDate (arrivalDate tz s hz)"
    using fe by (intro fourDigitDate_arrivalDate)
  have fit: "fst (arrivalDate tz s hz) \<le> 9999"
    using fa by (simp add: fourDigitDate_def)
  have add: "addDaysYmd tz (isoDate10 s) hz = Inr (isoDate10 (arrivalDate tz s hz))"
    using assms(2) fe by (rule addDaysYmd_zone)
  have ym: "100 \<le> y" "y \<le> 10000" "1 \<le> m" "m \<le> 12"
    using assms(2,3) by (auto simp: s fourDigitDate_def validDate_def)
  have loop: "monthsLoop mc (Some (arrivalDate tz s hz)) y m []
          = Some ([] @ concat (map (\<lambda>(y, m). monthDates mc y m)
                                 (monthsUpTo (arrivalDate tz s hz) y m)))"
    for mc
    using fit ym by (rule monthsLoop_in_domain)
  have p1: "parseYmd (isoDate10 s) = Some (y, m, d)"
    using parseYmd_isoDate10[OF assms(2)] s by simp
  have p2: "parseYmd (isoDate10 (arrivalDate tz s hz)) = Some (arrivalDate tz s hz)"
    using fa by (rule parseYmd_isoDate10)
  have fs: "fst s = y" "fst (snd s) = m"
    by (simp_all add: s)
  show ?thesis
    unfolding buildPlanFromHistory_baseYear[OF assms(1)] assms(4) add fs
    by (simp add: p1 p2 loop)
qed

lemma year_nextDay_le: "fst (nextDay dt) \<le> fst dt + 1"
  by (cases dt) (auto simp: nextDay_def)

lemma year_funpow_nextDay_le: "fst ((nextDay ^^ n) dt) \<le> fst dt + int n"
proof (induction n)
  case 0
  then show ?case by simp
next
  case (Suc n)
  have "fst (nextDay ((nextDay ^^ n) dt)) \<le> fst ((nextDay ^^ n) dt) + 1"
    by (rule year_nextDay_le)
  then show ?case
    using Suc by simp
qed

lemma year_plusDays_le: "0 \<le> n \<Longrightarrow> fst (plusDays dt n) \<le> fst dt + n"
  using year_funpow_nextDay_le[of "nat n" dt] by (simp add: plusDays_def)

text \<open>
  Claim C10, as the code has it, in every zone: \<open>buildPlanFromHistory\<close> throws one of its three
  no-history errors exactly when the history has no \<open>YYYY-MM-DD\<close> string of the base year.
  With such a date it returns a plan whenever the start it uses is a calendar date
  \<open>YYYY-MM-DD\<close> (year from 100 on), the horizon is not negative and the end date's year
  has four digits.
\<close>

theorem buildPlanFromHistory_throws:
  "(\<not> hasBaseYearDate hs B \<longrightarrow>
      buildPlanFromHistory tz hs B start hz
        \<in> {Some (Inl EmptyHistory), Some (Inl NoValidHistory), Some (Inl NoBaseYearHistory)})
   \<and> (hasBaseYearDate hs B \<longrightarrow>
      buildPlanFromHistory tz hs B start hz
        \<notin> {Some (Inl EmptyHistory), Some (Inl NoValidHistory), Some (Inl NoBaseYearHistory)})
   \<and> (hasBaseYearDate hs B \<and> fourDigitDate s \<and> 100 \<le> fst s
        \<and> startYmdOf B start = isoDate10 s \<and> 0 \<le> hz \<and> fst (plusDays s hz) \<le> 9999 \<longrightarrow>
      (\<exists>r. buildPlanFromHistory tz hs B start hz = Some (Inr r)))"
proof (intro conjI impI)
  show "buildPlanFromHistory tz hs B start hz
        \<in> {Some (Inl EmptyHistory), Some (Inl NoValidHistory), Some (Inl NoBaseYearHistory)}"
    if "\<not> hasBaseYearDate hs B"
    using that by (rule buildPlanFromHistory_no_baseYear)
  show "buildPlanFromHistory tz hs B start hz
        \<notin> {Some (Inl EmptyHistory), Some (Inl NoValidHistory), Some (Inl NoBaseYearHistory)}"
    if "hasBaseYearDate hs B"
    using that by (rule buildPlanFromHistory_not_history_error)
  show "\<exists>r. buildPlanFromHistory tz hs B start hz = Some (Inr r)"
    if "hasBaseYearDate hs B \<and> fourDigitDate s \<and> 100 \<le> fst s
        \<and> startYmdOf B start = isoDate10 s \<and> 0 \<le> hz \<and> fst (plusDays s hz) \<le> 9999"
    using that buildPlanFromHistory_returns[of hs B s start hz tz] by blast
qed

lemma hasBaseYearDate_example: "hasBaseYearDate [''2024-01-05''] 2024"
  by code_simp

lemma startYmdOf_example: "startYmdOf 2024 (Some ''2025-06-01'') = isoDate10 (2025, 6, 1)"
  by code_simp

theorem buildPlanFromHistory_throws_witness:
  "hasBaseYearDate [''2024-01-05''] 2024 \<and> fourDigitDate (2025, 6, 1)
   \<and> startYmdOf 2024 (Some ''2025-06-01'') = isoDate10 (2025, 6, 1)
   \<and> fst (plusDays (2025, 6, 1) 370) \<le> 9999
   \<and> (\<exists>r. buildPlanFromHistory asiaTokyo [''2024-01-05''] 2024 (Some ''2025-06-01'') 370 = Some (Inr r))"
proof -
  have d: "fourDigitDate (2025, 6, 1)"
    by (simp add: fourDigitDate_def validDate_def monthLength_def)
  have y: "fst (plusDays (2025, 6, 1) 370) \<le> 9999"
    using year_plusDays_le[of 370 "(2025, 6, 1)"] by simp
  have "\<exists>r. buildPlanFromHistory asiaTokyo [''2024-01-05''] 2024 (Some ''2025-06-01'') 370 = Some (Inr r)"
    using hasBaseYearDate_example d startYmdOf_example y
    by (intro buildPlanFromHistory_throws
          [of "[''2024-01-05'']" 2024 asiaTokyo "Some ''2025-06-01''" 370 "(2025, 6, 1)",
            THEN conjunct2, THEN conjunct2, rule_format]) simp
  then show ?thesis
    using hasBaseYearDate_example d startYmdOf_example y by (intro conjI)
qed

text \<open>
  Claim C10 as stated fails: with a base-year date in the history, the start string
  \<open>2025-13-01\<close> passes the pattern test but is no calendar date, and \<open>toISOString\<close> throws
  a \<open>RangeError\<close>.
\<close>

lemma startYmdOf_bad: "startYmdOf 2024 (Some ''2025-13-01'') = ''2025-13-01''"
  by code_simp

lemma addDaysYmd_bad: "addDaysYmd tz ''2025-13-01'' 370 = Inl RangeError"
proof -
  have "parseYmd ''2025-13-01'' = None"
    by code_simp
  then show ?thesis
    by (simp add: addDaysYmd_def setDatePlus_def jstYmdFromDate_def)
qed

theorem buildPlanFromHistory_throws_counterexample:
  "hasBaseYearDate [''2024-01-05''] 2024
   \<and> buildPlanFromHistory asiaTokyo [''2024-01-05''] 2024 (Some ''2025-13-01'') 370 = Some (Inl RangeError)"
  using hasBaseYearDate_example
  by (simp add: buildPlanFromHistory_baseYear[OF hasBaseYearDate_example] startYmdOf_bad
      addDaysYmd_bad)

section \<open>The planned dates of a plan are in ascending order\<close>

subsection \<open>Days spread over a month\<close>






subsection \<open>The months the loop visits\<close>






















end
